theory Spec2Isabelle
  imports Main "HOL-Library.Multiset"
begin

section \<open>CustomHashTable: an open-addressing hash table with linear probing\<close>

text \<open>
  The embedding follows \<^verbatim>\<open>src/ConsoleApplication2.cpp\<close>, class
  \<^verbatim>\<open>CustomHashTable<Key, Value>\<close>.

  \<^item> \<^verbatim>\<open>std::vector<Entry*> table\<close> is a list of optional entries: \<open>None\<close> is
    \<^verbatim>\<open>nullptr\<close>, \<open>Some e\<close> a pointer to an entry. Every entry is pointed to
    by one slot only (an entry is allocated for one slot by \<^verbatim>\<open>insert\<close> and moved,
    never copied, by \<^verbatim>\<open>resize\<close>), so the pointed-to entry is stored in the slot.
  \<^item> \<^verbatim>\<open>size_t\<close> is \<open>nat\<close>: the arithmetic of the class (\<^verbatim>\<open>item_count * 2\<close>,
    \<^verbatim>\<open>table_size * 2\<close>, \<^verbatim>\<open>index + 1\<close>) wraps only for a table of \<open>2^63\<close> slots
    or more, which no vector can hold. The one subtraction, \<^verbatim>\<open>item_count--\<close>, is shown
    below never to be applied to zero in a table that satisfies the invariants.
  \<^item> The two mutexes are not modelled: the operations are run one after the other.
    The recursive call of \<^verbatim>\<open>insert\<close> is followed as a plain call, its most
    favourable reading (in the program it locks \<^verbatim>\<open>access_mutex\<close>, which is not
    recursive, a second time on the same thread).
  \<^item> Undefined behaviour is a value: a remainder by zero and an access outside the
    vector are faults. A loop or recursion that does not end is \<open>OutOfFuel\<close>.
\<close>

subsection \<open>Data\<close>

datatype fault = DivByZero | OutOfBounds

datatype 'a outcome = Returns 'a | Fault fault | OutOfFuel

record ('k, 'v) Entry =
  key :: 'k
  val :: 'v
  in_use :: bool

type_synonym ('k, 'v) slot = "('k, 'v) Entry option"

record ('k, 'v) CustomHashTable =
  table :: "('k, 'v) slot list"
  table_size :: nat
  item_count :: nat

text \<open>
  What the class takes from its template argument \<^verbatim>\<open>Key\<close>: the value of
  \<^verbatim>\<open>std::hash<Key>{}(key)\<close>, the comparison \<^verbatim>\<open>table[index]->key == key\<close> of a
  stored key with the key of the call (\<^verbatim>\<open>Key\<close>'s own \<^verbatim>\<open>operator==\<close>, which need not
  be equality of the values: on \<^verbatim>\<open>double\<close> it is false of NaN and NaN), whether
  \<^verbatim>\<open>Key\<close> is one of the two types that the \<^verbatim>\<open>if constexpr\<close> of \<^verbatim>\<open>check_key\<close>
  names (\<^verbatim>\<open>int*\<close> and \<^verbatim>\<open>char*\<close>), and the comparison \<^verbatim>\<open>key == nullptr\<close>.
\<close>

record 'k key_type =
  std_hash :: "'k \<Rightarrow> nat"
  key_eq :: "'k \<Rightarrow> 'k \<Rightarrow> bool"
  is_int_or_char_ptr :: bool
  is_nullptr :: "'k \<Rightarrow> bool"

subsection \<open>Private members\<close>

definition hash :: "'k key_type \<Rightarrow> ('k, 'v) CustomHashTable \<Rightarrow> 'k \<Rightarrow> nat outcome" where
  "hash kt s k =
     (if table_size s = 0 then Fault DivByZero
      else Returns (std_hash kt k mod table_size s))"

text \<open>
  The inner loop of \<^verbatim>\<open>resize\<close>, \<^verbatim>\<open>while (new_table[index]) index = (index + 1) % new_size\<close>.
  It has no exit but a free slot. The fuel counts the slots still to be looked at.
\<close>

fun probe_free :: "('k, 'v) slot list \<Rightarrow> nat \<Rightarrow> nat \<Rightarrow> nat \<Rightarrow> nat outcome" where
  "probe_free new_table new_size index 0 = OutOfFuel"
| "probe_free new_table new_size index (Suc fuel) =
     (if length new_table \<le> index then Fault OutOfBounds
      else if new_table ! index = None then Returns index
      else probe_free new_table new_size ((index + 1) mod new_size) fuel)"

text \<open>The loop \<^verbatim>\<open>for (auto& entry : table)\<close> of \<^verbatim>\<open>resize\<close>, over the old vector.\<close>

fun rehash :: "'k key_type \<Rightarrow> nat \<Rightarrow> ('k, 'v) slot list \<Rightarrow> ('k, 'v) slot list
    \<Rightarrow> ('k, 'v) slot list outcome" where
  "rehash kt new_size [] new_table = Returns new_table"
| "rehash kt new_size (None # rest) new_table = rehash kt new_size rest new_table"
| "rehash kt new_size (Some e # rest) new_table =
     (if in_use e then
        (if new_size = 0 then Fault DivByZero
         else case probe_free new_table new_size (std_hash kt (key e) mod new_size) new_size of
             Returns index \<Rightarrow> rehash kt new_size rest (new_table[index := Some e])
           | Fault x \<Rightarrow> Fault x
           | OutOfFuel \<Rightarrow> OutOfFuel)
      else rehash kt new_size rest new_table)"

definition resize :: "'k key_type \<Rightarrow> ('k, 'v) CustomHashTable \<Rightarrow> ('k, 'v) CustomHashTable outcome" where
  "resize kt s =
     (if item_count s * 2 > table_size s then
        (let new_size = table_size s * 2 in
         case rehash kt new_size (table s) (replicate new_size None) of
             Returns new_table \<Rightarrow> Returns (s\<lparr>table := new_table, table_size := new_size\<rparr>)
           | Fault x \<Rightarrow> Fault x
           | OutOfFuel \<Rightarrow> OutOfFuel)
      else Returns s)"

definition check_key :: "'k key_type \<Rightarrow> 'k \<Rightarrow> bool" where
  "check_key kt k =
     (if is_int_or_char_ptr kt then (if is_nullptr kt k then False else True) else True)"

subsection \<open>The probing loop\<close>

text \<open>
  \<^verbatim>\<open>insert\<close>, \<^verbatim>\<open>find\<close> and \<^verbatim>\<open>remove\<close> run the same loop,
  \<^verbatim>\<open>while (table[index]) { if (table[index]->in_use.load() && table[index]->key == key) ...;
  index = (index + 1) % table_size; if (index == original_index) ...; }\<close>
  and differ in what they do at its three exits: the slot at \<open>index\<close> is null
  (\<open>Vacant\<close>), it is in use with a key that \<^verbatim>\<open>operator==\<close> equates with the key
  looked for (\<open>Match\<close>), or the index is back
  at \<open>original_index\<close> (\<open>Wrapped\<close>). The loop is entered after \<^verbatim>\<open>hash\<close> has
  returned, so \<open>table_size\<close> is not zero. It is called with as much fuel as the table
  has slots, which is shown below to be enough.
\<close>

datatype probe_result = Match nat | Vacant nat | Wrapped

fun probe :: "'k key_type \<Rightarrow> ('k, 'v) CustomHashTable \<Rightarrow> 'k \<Rightarrow> nat \<Rightarrow> nat \<Rightarrow> nat
    \<Rightarrow> probe_result outcome" where
  "probe kt s k original_index index 0 = OutOfFuel"
| "probe kt s k original_index index (Suc fuel) =
     (if length (table s) \<le> index then Fault OutOfBounds
      else case table s ! index of
          None \<Rightarrow> Returns (Vacant index)
        | Some e \<Rightarrow>
            if in_use e \<and> key_eq kt (key e) k then Returns (Match index)
            else (let index' = (index + 1) mod table_size s in
                  if index' = original_index then Returns Wrapped
                  else probe kt s k original_index index' fuel))"

subsection \<open>Public members\<close>

definition CustomHashTable_new :: "nat \<Rightarrow> ('k, 'v) CustomHashTable" where
  "CustomHashTable_new initial_size =
     \<lparr>table = replicate initial_size None, table_size = initial_size, item_count = 0\<rparr>"

text \<open>
  \<^verbatim>\<open>insert\<close>. The fuel bounds the depth of the recursion
  \<^verbatim>\<open>resize(); return insert(key, value);\<close> and nothing else.
\<close>

fun insert_tbl :: "nat \<Rightarrow> 'k key_type \<Rightarrow> ('k, 'v) CustomHashTable \<Rightarrow> 'k \<Rightarrow> 'v
    \<Rightarrow> (('k, 'v) CustomHashTable \<times> bool) outcome" where
  "insert_tbl 0 kt s k v = OutOfFuel"
| "insert_tbl (Suc fuel) kt s k v =
     (if \<not> check_key kt k then Returns (s, False)
      else case resize kt s of
          Fault x \<Rightarrow> Fault x
        | OutOfFuel \<Rightarrow> OutOfFuel
        | Returns s1 \<Rightarrow>
           (case hash kt s1 k of
              Fault x \<Rightarrow> Fault x
            | OutOfFuel \<Rightarrow> OutOfFuel
            | Returns original_index \<Rightarrow>
               (case probe kt s1 k original_index original_index (table_size s1) of
                  Fault x \<Rightarrow> Fault x
                | OutOfFuel \<Rightarrow> OutOfFuel
                | Returns (Match index) \<Rightarrow>
                    Returns (s1\<lparr>table := (table s1)[index :=
                       map_option (\<lambda>e. e\<lparr>val := v\<rparr>) (table s1 ! index)]\<rparr>, True)
                | Returns (Vacant index) \<Rightarrow>
                    Returns (s1\<lparr>table := (table s1)[index :=
                       Some \<lparr>key = k, val = v, in_use = True\<rparr>],
                       item_count := item_count s1 + 1\<rparr>, True)
                | Returns Wrapped \<Rightarrow>
                   (case resize kt s1 of
                      Fault x \<Rightarrow> Fault x
                    | OutOfFuel \<Rightarrow> OutOfFuel
                    | Returns s2 \<Rightarrow> insert_tbl fuel kt s2 k v))))"

text \<open>
  \<^verbatim>\<open>find\<close> returns the table as it leaves it and the value found: \<open>Some v\<close> for
  \<^verbatim>\<open>true\<close> with \<^verbatim>\<open>result = v\<close>, \<open>None\<close> for \<^verbatim>\<open>false\<close>.
\<close>

definition find_tbl :: "'k key_type \<Rightarrow> ('k, 'v) CustomHashTable \<Rightarrow> 'k
    \<Rightarrow> (('k, 'v) CustomHashTable \<times> 'v option) outcome" where
  "find_tbl kt s k =
     (if \<not> check_key kt k then Returns (s, None)
      else case hash kt s k of
          Fault x \<Rightarrow> Fault x
        | OutOfFuel \<Rightarrow> OutOfFuel
        | Returns original_index \<Rightarrow>
           (case probe kt s k original_index original_index (table_size s) of
              Fault x \<Rightarrow> Fault x
            | OutOfFuel \<Rightarrow> OutOfFuel
            | Returns (Match index) \<Rightarrow> Returns (s, map_option val (table s ! index))
            | Returns (Vacant index) \<Rightarrow> Returns (s, None)
            | Returns Wrapped \<Rightarrow> Returns (s, None)))"

definition remove :: "'k key_type \<Rightarrow> ('k, 'v) CustomHashTable \<Rightarrow> 'k
    \<Rightarrow> (('k, 'v) CustomHashTable \<times> bool) outcome" where
  "remove kt s k =
     (if \<not> check_key kt k then Returns (s, False)
      else case hash kt s k of
          Fault x \<Rightarrow> Fault x
        | OutOfFuel \<Rightarrow> OutOfFuel
        | Returns original_index \<Rightarrow>
           (case probe kt s k original_index original_index (table_size s) of
              Fault x \<Rightarrow> Fault x
            | OutOfFuel \<Rightarrow> OutOfFuel
            | Returns (Match index) \<Rightarrow>
                Returns (s\<lparr>table := (table s)[index :=
                   map_option (\<lambda>e. e\<lparr>in_use := False\<rparr>) (table s ! index)],
                   item_count := item_count s - 1\<rparr>, True)
            | Returns (Vacant index) \<Rightarrow> Returns (s, False)
            | Returns Wrapped \<Rightarrow> Returns (s, False)))"

definition size_tbl :: "('k, 'v) CustomHashTable \<Rightarrow> ('k, 'v) CustomHashTable \<times> nat" where
  "size_tbl s = (s, item_count s)"

subsection \<open>Key types and calls used in the examples\<close>

text \<open>
  A pointer value is null or an address. \<open>int_ptr_keys\<close> is \<^verbatim>\<open>Key = int*\<close>, one of the
  two types that \<^verbatim>\<open>check_key\<close> names; \<open>double_ptr_keys\<close> is \<^verbatim>\<open>Key = double*\<close>, a
  pointer type that it does not name. \<open>int_keys\<close> is \<^verbatim>\<open>Key = int\<close> restricted to the
  non-negative values. For these \<^verbatim>\<open>operator==\<close> is equality of the values. The hash of
  the examples is the identity on the number or the address (what libstdc++ and libc++
  compute); the theorems hold for every hash.

  \<open>double_keys\<close> is \<^verbatim>\<open>Key = double\<close>, with the values NaN and the whole numbers:
  \<^verbatim>\<open>operator==\<close> is false whenever an operand is NaN. \<^verbatim>\<open>check_key\<close> accepts every
  \<^verbatim>\<open>double\<close>. The hash given to NaN is one value among those \<^verbatim>\<open>std::hash\<close> may
  return; a slot that holds NaN matches no key wherever it lies.
\<close>

datatype ptr = Nullptr | Addr nat

definition ptr_hash :: "ptr \<Rightarrow> nat" where
  "ptr_hash p = (case p of Nullptr \<Rightarrow> 0 | Addr a \<Rightarrow> a)"

definition int_ptr_keys :: "ptr key_type" where
  "int_ptr_keys = \<lparr>std_hash = ptr_hash, key_eq = (=), is_int_or_char_ptr = True,
     is_nullptr = (\<lambda>p. p = Nullptr)\<rparr>"

definition double_ptr_keys :: "ptr key_type" where
  "double_ptr_keys = \<lparr>std_hash = ptr_hash, key_eq = (=), is_int_or_char_ptr = False,
     is_nullptr = (\<lambda>p. p = Nullptr)\<rparr>"

definition int_keys :: "nat key_type" where
  "int_keys = \<lparr>std_hash = (\<lambda>k. k), key_eq = (=), is_int_or_char_ptr = False,
     is_nullptr = (\<lambda>k. False)\<rparr>"

datatype dbl = NaN | Num int

definition dbl_eq :: "dbl \<Rightarrow> dbl \<Rightarrow> bool" where
  "dbl_eq a b = (case a of NaN \<Rightarrow> False | Num x \<Rightarrow> (case b of NaN \<Rightarrow> False | Num y \<Rightarrow> x = y))"

definition dbl_hash :: "dbl \<Rightarrow> nat" where
  "dbl_hash a = (case a of NaN \<Rightarrow> 0 | Num x \<Rightarrow> nat (abs x))"

definition double_keys :: "dbl key_type" where
  "double_keys = \<lparr>std_hash = dbl_hash, key_eq = dbl_eq, is_int_or_char_ptr = False,
     is_nullptr = (\<lambda>k. False)\<rparr>"

text \<open>A call of the public interface, and a sequence of calls run from a table.\<close>

datatype ('k, 'v) call = Insert 'k 'v | Find 'k | Remove 'k | Size

fun run_call :: "nat \<Rightarrow> 'k key_type \<Rightarrow> ('k, 'v) CustomHashTable \<Rightarrow> ('k, 'v) call
    \<Rightarrow> ('k, 'v) CustomHashTable outcome" where
  "run_call fuel kt s (Insert k v) =
     (case insert_tbl fuel kt s k v of
        Returns (s', b) \<Rightarrow> Returns s' | Fault x \<Rightarrow> Fault x | OutOfFuel \<Rightarrow> OutOfFuel)"
| "run_call fuel kt s (Find k) =
     (case find_tbl kt s k of
        Returns (s', r) \<Rightarrow> Returns s' | Fault x \<Rightarrow> Fault x | OutOfFuel \<Rightarrow> OutOfFuel)"
| "run_call fuel kt s (Remove k) =
     (case remove kt s k of
        Returns (s', b) \<Rightarrow> Returns s' | Fault x \<Rightarrow> Fault x | OutOfFuel \<Rightarrow> OutOfFuel)"
| "run_call fuel kt s Size = Returns (fst (size_tbl s))"

fun run_calls :: "nat \<Rightarrow> 'k key_type \<Rightarrow> ('k, 'v) CustomHashTable \<Rightarrow> ('k, 'v) call list
    \<Rightarrow> ('k, 'v) CustomHashTable outcome" where
  "run_calls fuel kt s [] = Returns s"
| "run_calls fuel kt s (c # cs) =
     (case run_call fuel kt s c of
        Returns s' \<Rightarrow> run_calls fuel kt s' cs | Fault x \<Rightarrow> Fault x | OutOfFuel \<Rightarrow> OutOfFuel)"

text \<open>
  Tables of the examples. \<open>after_history\<close> is what the calls of \<open>history\<close> leave of
  an empty table of two slots (it has grown twice and holds a tombstone);
  \<open>two_of_two\<close> is a table of two slots, both live.
\<close>

definition history :: "(nat, string) call list" where
  "history = [Insert 1 ''one'', Insert 2 ''two'', Insert 3 ''three'', Insert 1 ''uno'', Remove 2]"

definition after_history :: "(nat, string) CustomHashTable" where
  "after_history =
     \<lparr>table = [None, Some \<lparr>key = 1, val = ''uno'', in_use = True\<rparr>,
               Some \<lparr>key = 2, val = ''two'', in_use = False\<rparr>,
               Some \<lparr>key = 3, val = ''three'', in_use = True\<rparr>, None, None, None, None],
      table_size = 8, item_count = 2\<rparr>"

definition two_of_two :: "(nat, string) CustomHashTable" where
  "two_of_two =
     \<lparr>table = [Some \<lparr>key = 2, val = ''two'', in_use = True\<rparr>,
               Some \<lparr>key = 1, val = ''one'', in_use = True\<rparr>],
      table_size = 2, item_count = 2\<rparr>"


section \<open>What the claims speak of\<close>

subsection \<open>Live entries and the map they represent\<close>

text \<open>
  A slot is \<^emph>\<open>empty\<close> when it is \<open>None\<close>, \<^emph>\<open>live\<close> when it holds an entry in use and a
  \<^emph>\<open>tombstone\<close> when it holds an entry not in use. \<open>live_entries\<close> lists the entries
  of the live slots in the order of the table, \<open>lookup\<close> is the map from keys to values
  that they represent.
\<close>

fun live_entries :: "('k, 'v) slot list \<Rightarrow> ('k, 'v) Entry list" where
  "live_entries [] = []"
| "live_entries (None # t) = live_entries t"
| "live_entries (Some e # t) = (if in_use e then e # live_entries t else live_entries t)"

definition lookup :: "('k, 'v) slot list \<Rightarrow> 'k \<Rightarrow> 'v option" where
  "lookup t = map_of (map (\<lambda>e. (key e, val e)) (live_entries t))"

definition holds :: "('k, 'v) slot list \<Rightarrow> nat \<Rightarrow> 'k \<Rightarrow> bool" where
  "holds t i k = (i < length t \<and> (case t ! i of None \<Rightarrow> False | Some e \<Rightarrow> in_use e \<and> key e = k))"


definition no_tombstones :: "('k, 'v) slot list \<Rightarrow> bool" where
  "no_tombstones t = (\<forall>x \<in> set t. case x of None \<Rightarrow> True | Some e \<Rightarrow> in_use e)"

text \<open>
  \<open>live_for t k\<close> lists the live entries whose key is \<open>k\<close>. A key is \<^emph>\<open>plain\<close> when
  \<^verbatim>\<open>operator==\<close> equates it with itself and with no other key, on either side.
\<close>

definition live_for :: "('k, 'v) slot list \<Rightarrow> 'k \<Rightarrow> ('k, 'v) Entry list" where
  "live_for t k = filter (\<lambda>e. key e = k) (live_entries t)"

definition one_slot_for :: "('k, 'v) slot list \<Rightarrow> 'k \<Rightarrow> bool" where
  "one_slot_for t k = (length (live_for t k) \<le> 1)"

definition plain_key :: "'k key_type \<Rightarrow> 'k \<Rightarrow> bool" where
  "plain_key kt k = (\<forall>a. (key_eq kt a k \<longleftrightarrow> a = k) \<and> (key_eq kt k a \<longleftrightarrow> a = k))"

definition matches :: "'k key_type \<Rightarrow> ('k, 'v) slot list \<Rightarrow> nat \<Rightarrow> 'k \<Rightarrow> bool" where
  "matches kt t i k =
     (i < length t \<and> (case t ! i of None \<Rightarrow> False | Some e \<Rightarrow> in_use e \<and> key_eq kt (key e) k))"

subsection \<open>Probe sequences and the invariants of the table\<close>

text \<open>
  The probe sequence of a table of \<open>n\<close> slots from \<open>start\<close> is
  \<open>(start + d) mod n\<close> for \<open>d = 0, 1, \<dots>\<close>; \<open>dist n start i\<close> is the number of steps
  of \<open>+1\<close> (wrapping) from \<open>start\<close> to \<open>i\<close>. Slot \<open>i\<close> is reachable from \<open>start\<close>
  when no slot stepped over on the way is empty.
\<close>

definition dist :: "nat \<Rightarrow> nat \<Rightarrow> nat \<Rightarrow> nat" where
  "dist n start i = (i + n - start) mod n"

definition reachable :: "('k, 'v) slot list \<Rightarrow> nat \<Rightarrow> nat \<Rightarrow> bool" where
  "reachable t start i = (\<forall>d < dist (length t) start i. t ! ((start + d) mod length t) \<noteq> None)"

definition chains_ok :: "'k key_type \<Rightarrow> ('k, 'v) slot list \<Rightarrow> bool" where
  "chains_ok kt t = (\<forall>i < length t. case t ! i of None \<Rightarrow> True
      | Some e \<Rightarrow> in_use e \<longrightarrow> reachable t (std_hash kt (key e) mod length t) i)"

text \<open>
  The invariants: the vector has \<open>table_size\<close> slots, at least one; \<open>item_count\<close> is
  the number of live slots and at most the capacity; every live slot is reachable from
  the hash of its key.
\<close>

definition invariants :: "'k key_type \<Rightarrow> ('k, 'v) CustomHashTable \<Rightarrow> bool" where
  "invariants kt s = (length (table s) = table_size s \<and> 0 < table_size s
     \<and> item_count s = length (live_entries (table s)) \<and> item_count s \<le> table_size s
     \<and> chains_ok kt (table s))"

text \<open>
  What the probing loop has established when it leaves: the first \<open>d\<close> slots of the probe
  sequence were passed (each holds an entry that is not a live entry matching \<open>k\<close>), and
  the exit says what the next slot is.
\<close>

definition passed :: "'k key_type \<Rightarrow> ('k, 'v) slot list \<Rightarrow> 'k \<Rightarrow> nat \<Rightarrow> nat \<Rightarrow> bool" where
  "passed kt t k start d = (\<forall>d' < d. case t ! ((start + d') mod length t) of
       None \<Rightarrow> False | Some e \<Rightarrow> \<not> (in_use e \<and> key_eq kt (key e) k))"

definition probe_post :: "'k key_type \<Rightarrow> ('k, 'v) slot list \<Rightarrow> 'k \<Rightarrow> nat \<Rightarrow> probe_result
    \<Rightarrow> bool" where
  "probe_post kt t k start r = (case r of
       Match i \<Rightarrow> (\<exists>d < length t. i = (start + d) mod length t \<and> matches kt t i k
                     \<and> passed kt t k start d)
     | Vacant i \<Rightarrow> (\<exists>d < length t. i = (start + d) mod length t \<and> t ! i = None
                     \<and> passed kt t k start d)
     | Wrapped \<Rightarrow> passed kt t k start (length t))"

subsection \<open>The map a sequence of calls writes\<close>

text \<open>
  The value last written for each key by a sequence of calls: an \<^verbatim>\<open>insert\<close> of an
  accepted key writes, a \<^verbatim>\<open>remove\<close> erases, \<^verbatim>\<open>find\<close> and \<^verbatim>\<open>size\<close> do
  neither.
\<close>

fun last_written :: "'k key_type \<Rightarrow> ('k, 'v) call list \<Rightarrow> ('k \<rightharpoonup> 'v) \<Rightarrow> ('k \<rightharpoonup> 'v)" where
  "last_written kt [] m = m"
| "last_written kt (Insert k v # cs) m =
     last_written kt cs (if check_key kt k then m(k \<mapsto> v) else m)"
| "last_written kt (Remove k # cs) m =
     last_written kt cs (if check_key kt k then m(k := None) else m)"
| "last_written kt (Find k # cs) m = last_written kt cs m"
| "last_written kt (Size # cs) m = last_written kt cs m"

fun inserts :: "'k \<Rightarrow> ('k, 'v) call \<Rightarrow> bool" where
  "inserts k (Insert k' v) = (k' = k)"
| "inserts k (Find k') = False"
| "inserts k (Remove k') = False"
| "inserts k Size = False"

section \<open>Lemmas\<close>

subsection \<open>Arithmetic of the probe sequence\<close>

lemma offset_step: "((start + j) mod n + 1) mod n = (start + (j + 1)) mod (n::nat)"
  by (metis mod_add_left_eq add.assoc)

lemma offset_inj_le:
  fixes n :: nat
  assumes "d1 \<le> d2" "d2 < n" "(start + d1) mod n = (start + d2) mod n"
  shows "d1 = d2"
proof -
  have "start + d1 \<le> start + d2" using assms by simp
  then have "n dvd (start + d2) - (start + d1)"
    using assms(3) mod_eq_dvd_iff_nat[of "start + d1" "start + d2" n] by simp
  then have "n dvd d2 - d1" by simp
  moreover have "d2 - d1 < n" using assms by simp
  ultimately have "d2 - d1 = 0" using nat_dvd_not_less by blast
  with assms show ?thesis by simp
qed

lemma offset_inj:
  fixes n :: nat
  assumes "d1 < n" "d2 < n" "(start + d1) mod n = (start + d2) mod n"
  shows "d1 = d2"
proof (cases "d1 \<le> d2")
  case True with assms show ?thesis by (simp add: offset_inj_le)
next
  case False
  then have "d2 \<le> d1" by simp
  with assms offset_inj_le[of d2 d1 n start] show ?thesis by simp
qed

lemma offset_dist:
  fixes n :: nat
  assumes "start < n" "i < n"
  shows "(start + dist n start i) mod n = i"
proof -
  have "(start + dist n start i) mod n = (start + (i + n - start)) mod n"
    by (simp add: dist_def mod_add_right_eq)
  also have "\<dots> = (i + n) mod n" using assms by simp
  finally show ?thesis using assms by simp
qed

lemma dist_less: "0 < n \<Longrightarrow> dist n start i < n"
  by (simp add: dist_def)

lemma dist_offset:
  fixes n :: nat
  assumes "start < n" "d < n"
  shows "dist n start ((start + d) mod n) = d"
proof -
  have "0 < n" using assms by simp
  have "(start + d) mod n < n" using \<open>0 < n\<close> by simp
  then have "(start + dist n start ((start + d) mod n)) mod n = (start + d) mod n"
    using assms offset_dist by blast
  then show ?thesis using offset_inj[OF dist_less[OF \<open>0 < n\<close>] assms(2)] by blast
qed

lemma offset_wrap:
  fixes n :: nat
  assumes "start < n" "j < n"
  shows "((start + j) mod n + 1) mod n = start \<longleftrightarrow> j + 1 = n"
proof
  assume "j + 1 = n"
  then have "(start + (j + 1)) mod n = start" using assms by simp
  then show "((start + j) mod n + 1) mod n = start" by (simp only: offset_step)
next
  assume a: "((start + j) mod n + 1) mod n = start"
  show "j + 1 = n"
  proof (rule ccontr)
    assume "j + 1 \<noteq> n"
    then have lt: "j + 1 < n" using assms by simp
    have "(start + (j + 1)) mod n = (start + 0) mod n"
      using a assms by (simp only: offset_step) simp
    then have "j + 1 = 0" using offset_inj[of "j + 1" n 0 start] lt assms by simp
    then show False by simp
  qed
qed

subsection \<open>The probing loop leaves with what \<open>probe_post\<close> says\<close>

lemma passed_Suc:
  "passed kt t k start d \<Longrightarrow> t ! ((start + d) mod length t) = Some e \<Longrightarrow> \<not> (in_use e \<and> key_eq kt (key e) k)
   \<Longrightarrow> passed kt t k start (Suc d)"
  by (auto simp: passed_def less_Suc_eq)

lemma probe_from:
  assumes "length (table s) = table_size s" "start < table_size s"
  shows "j < table_size s \<Longrightarrow> passed kt (table s) k start j \<Longrightarrow> f = table_size s - j \<Longrightarrow>
         \<exists>r. probe kt s k start ((start + j) mod table_size s) f = Returns r
              \<and> probe_post kt (table s) k start r"
proof (induction f arbitrary: j)
  case 0
  then show ?case by simp
next
  case (Suc f)
  let ?n = "table_size s"
  let ?i = "(start + j) mod ?n"
  have n: "0 < ?n" using assms by simp
  have i: "?i < length (table s)" using assms n by simp
  show ?case
  proof (cases "table s ! ?i")
    case None
    then have "probe_post kt (table s) k start (Vacant ?i)"
      using Suc.prems assms by (auto simp: probe_post_def)
    then show ?thesis using None i by simp
  next
    case (Some e)
    show ?thesis
    proof (cases "in_use e \<and> key_eq kt (key e) k")
      case True
      then have "probe_post kt (table s) k start (Match ?i)"
        using Suc.prems assms Some i by (auto simp: probe_post_def matches_def)
      then show ?thesis using Some True i by simp
    next
      case False
      have p: "passed kt (table s) k start (Suc j)"
        using passed_Suc[OF Suc.prems(2)] Some False assms by simp
      show ?thesis
      proof (cases "j + 1 = ?n")
        case True
        then have w: "(?i + 1) mod ?n = start" using offset_wrap[OF assms(2) Suc.prems(1)] by simp
        have "probe_post kt (table s) k start Wrapped"
          using p True assms by (simp add: probe_post_def)
        then show ?thesis using Some False i w by (auto simp: Let_def)
      next
        case F: False
        then have w: "(?i + 1) mod ?n \<noteq> start" using offset_wrap[OF assms(2) Suc.prems(1)] by simp
        have j': "Suc j < ?n" using F Suc.prems by simp
        have f: "f = ?n - Suc j" using Suc.prems by simp
        from Suc.IH[OF j' p f] obtain r where
          r: "probe kt s k start ((start + Suc j) mod ?n) f = Returns r" "probe_post kt (table s) k start r"
          by blast
        have "(?i + 1) mod ?n = (start + Suc j) mod ?n" using offset_step[of start j ?n] by simp
        then show ?thesis using Some False i w r by (auto simp: Let_def)
      qed
    qed
  qed
qed

lemma probe_returns:
  assumes "length (table s) = table_size s" "start < table_size s"
  shows "\<exists>r. probe kt s k start start (table_size s) = Returns r \<and> probe_post kt (table s) k start r"
proof -
  have "passed kt (table s) k start 0" by (simp add: passed_def)
  with probe_from[OF assms, where j = 0 and kt = kt and k = k and f = "table_size s"] assms show ?thesis by simp
qed

subsection \<open>Live entries, and what a probe for a plain key that finds no match tells\<close>

lemma live_entries_append: "live_entries (xs @ ys) = live_entries xs @ live_entries ys"
  by (induction xs rule: live_entries.induct) auto

lemma live_entries_split:
  assumes "i < length t"
  shows "live_entries t = live_entries (take i t) @ live_entries [t ! i] @ live_entries (drop (Suc i) t)"
proof -
  have "t = take i t @ [t ! i] @ drop (Suc i) t"
    using assms by (simp add: id_take_nth_drop)
  then have "live_entries t = live_entries (take i t @ [t ! i] @ drop (Suc i) t)" by simp
  then show ?thesis by (simp only: live_entries_append)
qed

lemma live_entries_update:
  assumes "i < length t"
  shows "live_entries (t[i := x]) = live_entries (take i t) @ live_entries [x] @ live_entries (drop (Suc i) t)"
proof -
  have "t[i := x] = take i t @ [x] @ drop (Suc i) t"
    using assms by (simp add: upd_conv_take_nth_drop)
  then show ?thesis by (simp only: live_entries_append)
qed

lemma in_live_entries_set: "e \<in> set (live_entries t) \<longleftrightarrow> Some e \<in> set t \<and> in_use e"
  by (induction t rule: live_entries.induct) auto

lemma in_live_entries: "e \<in> set (live_entries t) \<longleftrightarrow> (\<exists>i < length t. t ! i = Some e \<and> in_use e)"
  unfolding in_live_entries_set by (auto simp: in_set_conv_nth[of "Some e" t])

lemma holds_iff: "(\<exists>i. holds t i k) \<longleftrightarrow> k \<in> key ` set (live_entries t)"
proof
  assume "\<exists>i. holds t i k"
  then obtain i e where "i < length t" "t ! i = Some e" "in_use e" "key e = k"
    by (auto simp: holds_def split: option.splits)
  then have "e \<in> set (live_entries t)" by (auto simp: in_live_entries)
  with \<open>key e = k\<close> show "k \<in> key ` set (live_entries t)" by blast
next
  assume "k \<in> key ` set (live_entries t)"
  then obtain e where "e \<in> set (live_entries t)" "key e = k" by blast
  then obtain i where "i < length t" "t ! i = Some e" "in_use e" by (auto simp: in_live_entries)
  with \<open>key e = k\<close> have "holds t i k" by (simp add: holds_def)
  then show "\<exists>i. holds t i k" ..
qed

lemma length_live_entries: "length (live_entries t) \<le> length t"
  by (induction t rule: live_entries.induct) auto

lemma live_entries_full:
  "\<forall>x \<in> set t. \<exists>e. x = Some e \<and> in_use e \<Longrightarrow> length (live_entries t) = length t"
  by (induction t rule: live_entries.induct) auto

lemma live_entries_replicate: "live_entries (replicate n None) = []"
  by (induction n) auto

lemma holds_reachable:
  "chains_ok kt t \<Longrightarrow> holds t j k \<Longrightarrow> reachable t (std_hash kt k mod length t) j"
  by (auto simp: chains_ok_def holds_def split: option.splits)

lemma no_holder_vacant:
  assumes c: "chains_ok kt t" and g: "plain_key kt k" and d: "d < length t"
    and v: "t ! ((std_hash kt k mod length t + d) mod length t) = None"
    and p: "passed kt t k (std_hash kt k mod length t) d"
  shows "\<not> holds t j k"
proof
  assume h: "holds t j k"
  let ?n = "length t" let ?s = "std_hash kt k mod length t"
  have n: "0 < ?n" using d by (cases t) simp_all
  have s: "?s < ?n" using n by simp
  have j: "j < ?n" using h by (simp add: holds_def)
  have r: "reachable t ?s j" using holds_reachable[OF c h] .
  have o: "(?s + dist ?n ?s j) mod ?n = j" using offset_dist[OF s j] .
  have kk: "key_eq kt k k" using g by (simp add: plain_key_def)
  consider "dist ?n ?s j < d" | "dist ?n ?s j = d" | "d < dist ?n ?s j" by linarith
  then show False
  proof cases
    case 1
    with p have "case t ! ((?s + dist ?n ?s j) mod ?n) of None \<Rightarrow> False
        | Some e \<Rightarrow> \<not> (in_use e \<and> key_eq kt (key e) k)" by (simp add: passed_def)
    with o h kk show False by (auto simp: holds_def split: option.splits)
  next
    case 2
    with v o h show False by (auto simp: holds_def)
  next
    case 3
    with r v show False by (auto simp: reachable_def)
  qed
qed

lemma no_holder_wrapped:
  assumes n: "0 < length t" and g: "plain_key kt k"
    and p: "passed kt t k (std_hash kt k mod length t) (length t)"
  shows "\<not> holds t j k"
proof
  assume h: "holds t j k"
  let ?n = "length t" let ?s = "std_hash kt k mod length t"
  have s: "?s < ?n" using n by simp
  have j: "j < ?n" using h by (simp add: holds_def)
  have o: "(?s + dist ?n ?s j) mod ?n = j" using offset_dist[OF s j] .
  have kk: "key_eq kt k k" using g by (simp add: plain_key_def)
  have "dist ?n ?s j < ?n" using dist_less[OF n] .
  with p have "case t ! ((?s + dist ?n ?s j) mod ?n) of None \<Rightarrow> False
      | Some e \<Rightarrow> \<not> (in_use e \<and> key_eq kt (key e) k)" by (simp add: passed_def)
  with o h kk show False by (auto simp: holds_def split: option.splits)
qed

lemma matches_plain: "plain_key kt k \<Longrightarrow> matches kt t i k = holds t i k"
  by (auto simp: matches_def holds_def plain_key_def split: option.splits)

subsection \<open>\<^verbatim>\<open>find\<close> computes \<open>lookup\<close>\<close>

lemma map_of_filter_key:
  "map_of (map (\<lambda>e. (key e, val e)) xs) k
      = (case filter (\<lambda>e. key e = k) xs of [] \<Rightarrow> None | e # es \<Rightarrow> Some (val e))"
  by (induction xs) auto

lemma lookup_live_for:
  "lookup t k = (case live_for t k of [] \<Rightarrow> None | e # es \<Rightarrow> Some (val e))"
  by (simp add: lookup_def live_for_def map_of_filter_key)

lemma live_for_Nil: "(\<forall>j. \<not> holds t j k) \<Longrightarrow> live_for t k = []"
  using holds_iff[of t k] by (auto simp: live_for_def filter_empty_conv)

lemma lookup_None: "(\<forall>j. \<not> holds t j k) \<Longrightarrow> lookup t k = None"
  by (simp add: lookup_live_for live_for_Nil)

lemma holds_lookup: "holds t i k \<Longrightarrow> lookup t k \<noteq> None"
proof -
  assume "holds t i k"
  then have "k \<in> key ` set (live_entries t)" using holds_iff[of t k] by blast
  then show ?thesis by (simp add: lookup_def map_of_eq_None_iff image_image)
qed

lemma short_list_eq:
  assumes "mset xs = mset ys" "length xs \<le> 1"
  shows "xs = ys"
proof -
  have l: "length ys = length xs" using assms(1) by (metis size_mset)
  show ?thesis
  proof (cases xs)
    case Nil
    with l show ?thesis by simp
  next
    case (Cons x xs')
    with assms(2) have "xs = [x]" by simp
    moreover from this l obtain y where "ys = [y]" by (cases ys) auto
    ultimately show ?thesis using assms(1) by simp
  qed
qed

lemma lookup_holds:
  assumes "one_slot_for t (key e)" "i < length t" "t ! i = Some e" "in_use e"
  shows "live_for t (key e) = [e]" and "lookup t (key e) = Some (val e)"
proof -
  have "e \<in> set (live_entries t)" using assms by (auto simp: in_live_entries)
  then have "e \<in> set (live_for t (key e))" by (simp add: live_for_def)
  moreover have "length (live_for t (key e)) \<le> 1" using assms(1) by (simp add: one_slot_for_def)
  ultimately show "live_for t (key e) = [e]"
    by (cases "live_for t (key e)") auto
  then show "lookup t (key e) = Some (val e)" by (simp add: lookup_live_for)
qed

lemma find_lookup:
  assumes inv: "invariants kt s" and g: "plain_key kt k" and u: "one_slot_for (table s) k"
  shows "find_tbl kt s k = Returns (s, if check_key kt k then lookup (table s) k else None)"
proof (cases "check_key kt k")
  case False
  then show ?thesis by (simp add: find_tbl_def)
next
  case True
  let ?t = "table s" let ?n = "table_size s" let ?s = "std_hash kt k mod table_size s"
  have len: "length ?t = ?n" and n: "0 < ?n" and c: "chains_ok kt ?t"
    using inv by (simp_all add: invariants_def)
  have s: "?s < ?n" using n by simp
  from probe_returns[OF len s, of kt k] obtain r where
    r: "probe kt s k ?s ?s ?n = Returns r" and post: "probe_post kt ?t k ?s r" by blast
  have f: "find_tbl kt s k = (case r of Match index \<Rightarrow> Returns (s, map_option val (?t ! index))
      | _ \<Rightarrow> Returns (s, None))"
    using True n r by (simp add: find_tbl_def hash_def split: probe_result.splits)
  show ?thesis
  proof (cases r)
    case (Match i)
    with post have "holds ?t i k" using matches_plain[OF g] by (auto simp: probe_post_def)
    then obtain e where e: "i < length ?t" "?t ! i = Some e" "in_use e" "key e = k"
      by (auto simp: holds_def split: option.splits)
    from lookup_holds(2)[OF _ e(1-3)] u e(4) have "lookup ?t k = Some (val e)" by simp
    with f Match True e(2) show ?thesis by simp
  next
    case (Vacant i)
    with post len obtain d where "d < length ?t" "?t ! ((?s + d) mod length ?t) = None"
      "passed kt ?t k ?s d" by (auto simp: probe_post_def)
    with no_holder_vacant[OF c g, of d] len have "\<forall>j. \<not> holds ?t j k" by simp
    with lookup_None f Vacant True show ?thesis by fastforce
  next
    case Wrapped
    with post len have "passed kt ?t k ?s (length ?t)" by (simp add: probe_post_def)
    with no_holder_wrapped[OF _ g, of ?t] len n have "\<forall>j. \<not> holds ?t j k" by simp
    with lookup_None f Wrapped True show ?thesis by fastforce
  qed
qed

subsection \<open>Writing one slot\<close>

lemma reachable_update:
  assumes "reachable t start j" "i < length t"
  shows "reachable (t[i := Some e]) start j"
  using assms by (auto simp: reachable_def nth_list_update)

lemma chains_ok_update:
  assumes c: "chains_ok kt t" and i: "i < length t"
    and r: "in_use e \<Longrightarrow> reachable t (std_hash kt (key e) mod length t) i"
  shows "chains_ok kt (t[i := Some e])"
  unfolding chains_ok_def
proof (intro allI impI)
  fix j assume j: "j < length (t[i := Some e])"
  show "case t[i := Some e] ! j of None \<Rightarrow> True
        | Some e' \<Rightarrow> in_use e' \<longrightarrow>
            reachable (t[i := Some e]) (std_hash kt (key e') mod length (t[i := Some e])) j"
  proof (cases "j = i")
    case True
    then show ?thesis using i r reachable_update[OF _ i] by auto
  next
    case False
    then have "t[i := Some e] ! j = t ! j" by simp
    moreover have "case t ! j of None \<Rightarrow> True
        | Some e' \<Rightarrow> in_use e' \<longrightarrow> reachable t (std_hash kt (key e') mod length t) j"
      using c j by (simp add: chains_ok_def)
    ultimately show ?thesis using reachable_update[OF _ i] by (auto split: option.splits)
  qed
qed

lemma passed_reachable:
  assumes "start < length t" "d < length t" "passed kt t k start d"
  shows "reachable t start ((start + d) mod length t)"
proof -
  have "dist (length t) start ((start + d) mod length t) = d"
    using dist_offset[OF assms(1,2)] .
  then show ?thesis using assms(3) by (auto simp: reachable_def passed_def split: option.splits)
qed

text \<open>The three updates of a slot, on the list of live entries.\<close>

lemma live_entries_fill:
  assumes "i < length t" "t ! i = None" "in_use e"
  shows "\<exists>A B. live_entries t = A @ B \<and> live_entries (t[i := Some e]) = A @ e # B"
  using live_entries_split[OF assms(1)] live_entries_update[OF assms(1), of "Some e"] assms(2,3)
  by auto

lemma live_entries_change:
  assumes "i < length t" "t ! i = Some e" "in_use e" "in_use e'"
  shows "\<exists>A B. live_entries t = A @ e # B \<and> live_entries (t[i := Some e']) = A @ e' # B"
  using live_entries_split[OF assms(1)] live_entries_update[OF assms(1), of "Some e'"] assms(2-4)
  by auto

lemma live_entries_kill:
  assumes "i < length t" "t ! i = Some e" "in_use e" "\<not> in_use e'"
  shows "\<exists>A B. live_entries t = A @ e # B \<and> live_entries (t[i := Some e']) = A @ B"
  using live_entries_split[OF assms(1)] live_entries_update[OF assms(1), of "Some e'"] assms(2-4)
  by auto

lemma live_for_fill:
  assumes "i < length t" "t ! i = None" "in_use e"
  shows "key e \<noteq> k' \<Longrightarrow> live_for (t[i := Some e]) k' = live_for t k'"
    and "live_for t (key e) = [] \<Longrightarrow> live_for (t[i := Some e]) (key e) = [e]"
proof -
  from live_entries_fill[OF assms] obtain A B where
    AB: "live_entries t = A @ B" "live_entries (t[i := Some e]) = A @ e # B" by blast
  show "live_for (t[i := Some e]) k' = live_for t k'" if "key e \<noteq> k'"
    using that AB by (simp add: live_for_def)
  show "live_for (t[i := Some e]) (key e) = [e]" if "live_for t (key e) = []"
    using that AB by (simp add: live_for_def)
qed

lemma live_for_change:
  assumes "i < length t" "t ! i = Some e" "in_use e" "in_use e'" "key e' = key e"
  shows "key e \<noteq> k' \<Longrightarrow> live_for (t[i := Some e']) k' = live_for t k'"
    and "one_slot_for t (key e) \<Longrightarrow> live_for (t[i := Some e']) (key e) = [e']"
proof -
  from live_entries_change[OF assms(1-4)] obtain A B where
    AB: "live_entries t = A @ e # B" "live_entries (t[i := Some e']) = A @ e' # B" by blast
  show "live_for (t[i := Some e']) k' = live_for t k'" if "key e \<noteq> k'"
    using that AB assms(5) by (simp add: live_for_def)
  show "live_for (t[i := Some e']) (key e) = [e']" if "one_slot_for t (key e)"
  proof -
    have "filter (\<lambda>x. key x = key e) A = [] \<and> filter (\<lambda>x. key x = key e) B = []"
      using that AB(1) by (simp add: one_slot_for_def live_for_def)
    then show ?thesis using AB(2) assms(5) by (simp add: live_for_def)
  qed
qed

lemma live_for_kill:
  assumes "i < length t" "t ! i = Some e" "in_use e" "\<not> in_use e'"
  shows "key e \<noteq> k' \<Longrightarrow> live_for (t[i := Some e']) k' = live_for t k'"
    and "one_slot_for t (key e) \<Longrightarrow> live_for (t[i := Some e']) (key e) = []"
proof -
  from live_entries_kill[OF assms] obtain A B where
    AB: "live_entries t = A @ e # B" "live_entries (t[i := Some e']) = A @ B" by blast
  show "live_for (t[i := Some e']) k' = live_for t k'" if "key e \<noteq> k'"
    using that AB by (simp add: live_for_def)
  show "live_for (t[i := Some e']) (key e) = []" if "one_slot_for t (key e)"
  proof -
    have "filter (\<lambda>x. key x = key e) A = [] \<and> filter (\<lambda>x. key x = key e) B = []"
      using that AB(1) by (simp add: one_slot_for_def live_for_def)
    then show ?thesis using AB(2) by (simp add: live_for_def)
  qed
qed

lemma fill_slot:
  assumes c: "chains_ok kt t" and d: "d < length t"
    and i: "i = (std_hash kt k mod length t + d) mod length t"
    and v: "t ! i = None" and p: "passed kt t k (std_hash kt k mod length t) d"
    and e: "e = \<lparr>key = k, val = v, in_use = True\<rparr>"
  shows "chains_ok kt (t[i := Some e])"
    and "length (live_entries (t[i := Some e])) = Suc (length (live_entries t))"
proof -
  have n: "0 < length t" using d by (cases t) simp_all
  have il: "i < length t" using i n by simp
  have s: "std_hash kt k mod length t < length t" using n by simp
  have "reachable t (std_hash kt k mod length t) i"
    using passed_reachable[OF s d p] i by simp
  then show "chains_ok kt (t[i := Some e])"
    using chains_ok_update[OF c il, of e] e by simp
  from live_entries_fill[OF il v, of e] e obtain A B where
    AB: "live_entries t = A @ B" "live_entries (t[i := Some e]) = A @ e # B" by auto
  show "length (live_entries (t[i := Some e])) = Suc (length (live_entries t))"
    using AB by simp
qed

lemma overwrite_slot:
  assumes c: "chains_ok kt t" and il: "i < length t"
    and ti: "t ! i = Some e" and u: "in_use e"
  shows "chains_ok kt (t[i := Some (e\<lparr>val := v\<rparr>)])"
    and "length (live_entries (t[i := Some (e\<lparr>val := v\<rparr>)])) = length (live_entries t)"
proof -
  let ?e = "e\<lparr>val := v\<rparr>"
  have "reachable t (std_hash kt (key ?e) mod length t) i"
    using c il ti u by (auto simp: chains_ok_def split: option.splits)
  then show "chains_ok kt (t[i := Some ?e])" using chains_ok_update[OF c il, of ?e] by simp
  from live_entries_change[OF il ti u, of ?e] u obtain A B where
    AB: "live_entries t = A @ e # B" "live_entries (t[i := Some ?e]) = A @ ?e # B" by auto
  show "length (live_entries (t[i := Some ?e])) = length (live_entries t)" using AB by simp
qed

lemma tombstone_slot:
  assumes c: "chains_ok kt t" and il: "i < length t"
    and ti: "t ! i = Some e" and u: "in_use e"
  shows "chains_ok kt (t[i := Some (e\<lparr>in_use := False\<rparr>)])"
    and "Suc (length (live_entries (t[i := Some (e\<lparr>in_use := False\<rparr>)]))) = length (live_entries t)"
proof -
  let ?e = "e\<lparr>in_use := False\<rparr>"
  show "chains_ok kt (t[i := Some ?e])" using chains_ok_update[OF c il, of ?e] by simp
  from live_entries_kill[OF il ti u, of ?e] obtain A B where
    AB: "live_entries t = A @ e # B" "live_entries (t[i := Some ?e]) = A @ B" by auto
  show "Suc (length (live_entries (t[i := Some ?e]))) = length (live_entries t)" using AB by simp
qed

subsection \<open>\<^verbatim>\<open>resize\<close>\<close>

lemma probe_free_from:
  assumes len: "length nt = m" and st: "start < m" and free: "\<exists>i < m. nt ! i = None"
  shows "j \<le> m \<Longrightarrow> \<forall>d' < j. nt ! ((start + d') mod m) \<noteq> None \<Longrightarrow> f = m - j \<Longrightarrow>
         \<exists>d < m. probe_free nt m ((start + j) mod m) f = Returns ((start + d) mod m)
            \<and> nt ! ((start + d) mod m) = None \<and> (\<forall>d' < d. nt ! ((start + d') mod m) \<noteq> None)"
proof (induction f arbitrary: j)
  case 0
  then have j: "j = m" by simp
  from free obtain i where i: "i < m" "nt ! i = None" by blast
  have "(start + dist m start i) mod m = i" using offset_dist[OF st i(1)] .
  moreover have "dist m start i < m" using dist_less[of m] st by simp
  ultimately show ?case using 0(2) j i(2) by metis
next
  case (Suc f)
  then have j: "j < m" by simp
  let ?i = "(start + j) mod m"
  have i: "?i < length nt" using len st by simp
  show ?case
  proof (cases "nt ! ?i = None")
    case True
    then have "probe_free nt m ?i (Suc f) = Returns ?i" using i by simp
    with True Suc.prems(2) j show ?thesis by blast
  next
    case False
    have p: "\<forall>d' < Suc j. nt ! ((start + d') mod m) \<noteq> None"
      using Suc.prems(2) False by (auto simp: less_Suc_eq)
    have f: "f = m - Suc j" using Suc.prems by simp
    from Suc.IH[OF _ p f] j obtain d where d: "d < m"
      "probe_free nt m ((start + Suc j) mod m) f = Returns ((start + d) mod m)"
      "nt ! ((start + d) mod m) = None" "\<forall>d' < d. nt ! ((start + d') mod m) \<noteq> None"
      by auto
    have "(?i + 1) mod m = (start + Suc j) mod m" using offset_step[of start j m] by simp
    then have "probe_free nt m ?i (Suc f) = Returns ((start + d) mod m)"
      using False i d(2) by auto
    with d show ?thesis by blast
  qed
qed

lemma probe_free_returns:
  assumes len: "length nt = m" and st: "start < m" and free: "\<exists>i < m. nt ! i = None"
  shows "\<exists>d < m. probe_free nt m start m = Returns ((start + d) mod m)
            \<and> nt ! ((start + d) mod m) = None \<and> (\<forall>d' < d. nt ! ((start + d') mod m) \<noteq> None)"
  using probe_free_from[OF assms, of 0 m] st by simp

lemma free_slot:
  assumes "no_tombstones nt" "length (live_entries nt) < length nt"
  shows "\<exists>i < length nt. nt ! i = None"
proof (rule ccontr)
  assume "\<not> (\<exists>i < length nt. nt ! i = None)"
  then have "\<forall>x \<in> set nt. x \<noteq> None" by (auto simp: in_set_conv_nth)
  with assms(1) have "\<forall>x \<in> set nt. \<exists>e. x = Some e \<and> in_use e"
    by (auto simp: no_tombstones_def split: option.splits)
  from live_entries_full[OF this] assms(2) show False by simp
qed

lemma no_tombstones_update:
  "no_tombstones t \<Longrightarrow> in_use e \<Longrightarrow> no_tombstones (t[i := Some e])"
  unfolding no_tombstones_def using set_update_subset_insert[of t i "Some e"] by auto

lemma rehash_ok:
  assumes m: "0 < m"
  shows "length nt = m \<Longrightarrow> no_tombstones nt \<Longrightarrow> chains_ok kt nt
     \<Longrightarrow> length (live_entries nt) + length (live_entries rest) < m
     \<Longrightarrow> \<exists>nt'. rehash kt m rest nt = Returns nt' \<and> length nt' = m \<and> no_tombstones nt'
           \<and> chains_ok kt nt'
           \<and> mset (live_entries nt') = mset (live_entries nt) + mset (live_entries rest)"
proof (induction rest arbitrary: nt)
  case Nil
  then show ?case by simp
next
  case (Cons x rest)
  show ?case
  proof (cases x)
    case None
    with Cons show ?thesis by simp
  next
    case (Some e)
    show ?thesis
    proof (cases "in_use e")
      case False
      with Some Cons show ?thesis by simp
    next
      case True
      let ?s = "std_hash kt (key e) mod m"
      have s: "?s < m" using m by simp
      have "length (live_entries nt) < length nt" using Cons.prems Some True by simp
      from free_slot[OF Cons.prems(2) this] Cons.prems(1) have "\<exists>i < m. nt ! i = None" by simp
      from probe_free_returns[OF Cons.prems(1) s this] obtain d where d: "d < m"
        "probe_free nt m ?s m = Returns ((?s + d) mod m)"
        "nt ! ((?s + d) mod m) = None" "\<forall>d' < d. nt ! ((?s + d') mod m) \<noteq> None" by blast
      let ?i = "(?s + d) mod m"
      let ?nt = "nt[?i := Some e]"
      have i: "?i < length nt" using Cons.prems(1) m by simp
      have "dist m ?s ?i = d" using dist_offset[OF s d(1)] .
      then have "reachable nt (std_hash kt (key e) mod length nt) ?i"
        using d(4) Cons.prems(1) by (simp add: reachable_def)
      then have c: "chains_ok kt ?nt" using chains_ok_update[OF Cons.prems(3) i, of e] by simp
      from live_entries_fill[OF i d(3) True] obtain A B where
        AB: "live_entries nt = A @ B" "live_entries ?nt = A @ e # B" by blast
      have l: "length (live_entries ?nt) + length (live_entries rest) < m"
        using AB Cons.prems(4) Some True by simp
      from Cons.IH[OF _ no_tombstones_update[OF Cons.prems(2) True] c l] Cons.prems(1)
      obtain nt' where nt': "rehash kt m rest ?nt = Returns nt'" "length nt' = m"
        "no_tombstones nt'" "chains_ok kt nt'"
        "mset (live_entries nt') = mset (live_entries ?nt) + mset (live_entries rest)" by auto
      have "rehash kt m (x # rest) nt = Returns nt'"
        using Some True m d(2) nt'(1) by simp
      moreover have "mset (live_entries nt') = mset (live_entries nt) + mset (live_entries (x # rest))"
        using nt'(5) AB Some True by simp
      ultimately show ?thesis using nt' by blast
    qed
  qed
qed

lemma chains_ok_replicate: "chains_ok kt (replicate n None)"
  by (simp add: chains_ok_def)

lemma no_tombstones_replicate: "no_tombstones (replicate n None)"
  by (simp add: no_tombstones_def)

lemma resize_ok:
  assumes inv: "invariants kt s"
  shows "\<exists>s1. resize kt s = Returns s1 \<and> invariants kt s1
     \<and> item_count s1 * 2 \<le> table_size s1 \<and> item_count s1 = item_count s
     \<and> mset (live_entries (table s1)) = mset (live_entries (table s))
     \<and> (if table_size s < item_count s * 2
          then table_size s1 = table_size s * 2 \<and> no_tombstones (table s1)
          else s1 = s)"
proof (cases "table_size s < item_count s * 2")
  case False
  then show ?thesis using inv by (simp add: resize_def)
next
  case True
  let ?m = "table_size s * 2"
  have i: "length (table s) = table_size s" "0 < table_size s"
    "item_count s = length (live_entries (table s))" "item_count s \<le> table_size s"
    using inv by (simp_all add: invariants_def)
  have m: "0 < ?m" using i by simp
  have l: "length (live_entries (replicate ?m None)) + length (live_entries (table s)) < ?m"
    using i by (simp add: live_entries_replicate)
  from rehash_ok[OF m _ no_tombstones_replicate chains_ok_replicate l, of kt]
  obtain nt where nt: "rehash kt ?m (table s) (replicate ?m None) = Returns nt" "length nt = ?m"
    "no_tombstones nt" "chains_ok kt nt"
    "mset (live_entries nt) = mset (live_entries (table s))"
    by (auto simp: live_entries_replicate)
  let ?s1 = "s\<lparr>table := nt, table_size := ?m\<rparr>"
  have r: "resize kt s = Returns ?s1" using True nt(1) by (simp add: resize_def Let_def)
  have "length (live_entries nt) = length (live_entries (table s))"
    using nt(5) by (rule mset_eq_length)
  then have "invariants kt ?s1" using nt i by (simp add: invariants_def)
  with r nt i True show ?thesis by simp
qed

lemma same_live_entries:
  assumes "mset (live_entries t1) = mset (live_entries t)" "one_slot_for t k"
  shows "live_for t1 k = live_for t k"
proof -
  have "mset (live_for t k) = mset (live_for t1 k)"
    using assms(1) by (simp add: live_for_def)
  moreover have "length (live_for t k) \<le> 1" using assms(2) by (simp add: one_slot_for_def)
  ultimately show ?thesis using short_list_eq by metis
qed

subsection \<open>The exits of \<^verbatim>\<open>insert\<close> and \<^verbatim>\<open>remove\<close>\<close>

text \<open>
  When the probe of \<^verbatim>\<open>insert\<close> wraps on a table that needs no growth, the
  \<^verbatim>\<open>resize()\<close> before the retry changes nothing and the retry meets the same table:
  no depth of recursion is enough.
\<close>

lemma insert_stuck:
  assumes "check_key kt k" "\<not> table_size s < item_count s * 2" "0 < table_size s"
    and "probe kt s k (std_hash kt k mod table_size s) (std_hash kt k mod table_size s) (table_size s)
         = Returns Wrapped"
  shows "insert_tbl fuel kt s k v = OutOfFuel"
proof (induction fuel)
  case 0
  show ?case by simp
next
  case (Suc fuel)
  have "resize kt s = Returns s" using assms(2) by (simp add: resize_def)
  then show ?case using assms Suc by (simp add: hash_def)
qed

lemma insert_unfold:
  assumes inv: "invariants kt s" and ck: "check_key kt k"
  shows "\<exists>s1 r. resize kt s = Returns s1
     \<and> probe kt s1 k (std_hash kt k mod table_size s1) (std_hash kt k mod table_size s1) (table_size s1)
         = Returns r
     \<and> probe_post kt (table s1) k (std_hash kt k mod table_size s1) r
     \<and> insert_tbl fuel kt s k v = (case fuel of 0 \<Rightarrow> OutOfFuel | Suc f \<Rightarrow>
          (case r of
             Match index \<Rightarrow> Returns (s1\<lparr>table := (table s1)[index :=
                  map_option (\<lambda>e. e\<lparr>val := v\<rparr>) (table s1 ! index)]\<rparr>, True)
           | Vacant index \<Rightarrow> Returns (s1\<lparr>table := (table s1)[index :=
                  Some \<lparr>key = k, val = v, in_use = True\<rparr>],
                  item_count := item_count s1 + 1\<rparr>, True)
           | Wrapped \<Rightarrow> OutOfFuel))"
proof -
  from resize_ok[OF inv] obtain s1 where s1: "resize kt s = Returns s1" "invariants kt s1"
    "item_count s1 * 2 \<le> table_size s1" by blast
  let ?st = "std_hash kt k mod table_size s1"
  have i: "length (table s1) = table_size s1" "0 < table_size s1"
    using s1(2) by (simp_all add: invariants_def)
  then have st: "?st < table_size s1" by simp
  from probe_returns[OF i(1) st, of kt k] obtain r where
    r: "probe kt s1 k ?st ?st (table_size s1) = Returns r" "probe_post kt (table s1) k ?st r" by blast
  have ng: "\<not> table_size s1 < item_count s1 * 2" using s1(3) by simp
  have "insert_tbl fuel kt s k v = (case fuel of 0 \<Rightarrow> OutOfFuel | Suc f \<Rightarrow>
          (case r of
             Match index \<Rightarrow> Returns (s1\<lparr>table := (table s1)[index :=
                  map_option (\<lambda>e. e\<lparr>val := v\<rparr>) (table s1 ! index)]\<rparr>, True)
           | Vacant index \<Rightarrow> Returns (s1\<lparr>table := (table s1)[index :=
                  Some \<lparr>key = k, val = v, in_use = True\<rparr>],
                  item_count := item_count s1 + 1\<rparr>, True)
           | Wrapped \<Rightarrow> OutOfFuel))"
  proof (cases fuel)
    case 0
    then show ?thesis by simp
  next
    case (Suc f)
    show ?thesis
    proof (cases r)
      case Wrapped
      have "resize kt s1 = Returns s1" using ng by (simp add: resize_def)
      moreover have "insert_tbl f kt s1 k v = OutOfFuel"
        using insert_stuck[OF ck ng i(2)] r(1) Wrapped by simp
      ultimately show ?thesis using Suc Wrapped ck s1(1) i(2) r(1) by (simp add: hash_def)
    qed (use Suc ck s1(1) i(2) r(1) in \<open>simp_all add: hash_def\<close>)
  qed
  with s1(1) r show ?thesis by blast
qed

lemma insert_returns:
  assumes inv: "invariants kt s" and ck: "check_key kt k"
    and ret: "insert_tbl fuel kt s k v = Returns (s', b)"
  shows "\<exists>s1 i. resize kt s = Returns s1 \<and> b \<and> i < length (table s1) \<and>
     ((\<exists>e. table s1 ! i = Some e \<and> in_use e \<and> key_eq kt (key e) k
           \<and> s' = s1\<lparr>table := (table s1)[i := Some (e\<lparr>val := v\<rparr>)]\<rparr>)
      \<or> (\<exists>d < length (table s1).
            i = (std_hash kt k mod length (table s1) + d) mod length (table s1)
          \<and> table s1 ! i = None \<and> passed kt (table s1) k (std_hash kt k mod length (table s1)) d
          \<and> s' = s1\<lparr>table := (table s1)[i := Some \<lparr>key = k, val = v, in_use = True\<rparr>],
                 item_count := item_count s1 + 1\<rparr>))"
proof -
  from insert_unfold[OF inv ck, of fuel v] obtain s1 r where
    s1: "resize kt s = Returns s1"
    and post: "probe_post kt (table s1) k (std_hash kt k mod table_size s1) r"
    and ins: "insert_tbl fuel kt s k v = (case fuel of 0 \<Rightarrow> OutOfFuel | Suc f \<Rightarrow>
          (case r of
             Match index \<Rightarrow> Returns (s1\<lparr>table := (table s1)[index :=
                  map_option (\<lambda>e. e\<lparr>val := v\<rparr>) (table s1 ! index)]\<rparr>, True)
           | Vacant index \<Rightarrow> Returns (s1\<lparr>table := (table s1)[index :=
                  Some \<lparr>key = k, val = v, in_use = True\<rparr>],
                  item_count := item_count s1 + 1\<rparr>, True)
           | Wrapped \<Rightarrow> OutOfFuel))" by blast
  from resize_ok[OF inv] s1 have "invariants kt s1" by auto
  then have len: "length (table s1) = table_size s1" "0 < table_size s1"
    by (simp_all add: invariants_def)
  from ret ins obtain f where f: "fuel = Suc f" by (cases fuel) auto
  show ?thesis
  proof (cases r)
    case (Match i)
    with post obtain e where e: "i < length (table s1)" "table s1 ! i = Some e" "in_use e"
      "key_eq kt (key e) k"
      by (auto simp: probe_post_def matches_def split: option.splits)
    with ret ins f Match s1 show ?thesis by auto
  next
    case (Vacant i)
    with post len obtain d where d: "d < length (table s1)"
      "i = (std_hash kt k mod length (table s1) + d) mod length (table s1)"
      "table s1 ! i = None" "passed kt (table s1) k (std_hash kt k mod length (table s1)) d"
      by (auto simp: probe_post_def)
    have "i < length (table s1)" using d(2) len by simp
    with ret ins f Vacant s1 d show ?thesis by auto
  next
    case Wrapped
    with ret ins f show ?thesis by simp
  qed
qed

lemma remove_cases:
  assumes inv: "invariants kt s" and ck: "check_key kt k"
  shows "(\<exists>i e. i < length (table s) \<and> table s ! i = Some e \<and> in_use e \<and> key_eq kt (key e) k
            \<and> remove kt s k = Returns (s\<lparr>table := (table s)[i := Some (e\<lparr>in_use := False\<rparr>)],
                  item_count := item_count s - 1\<rparr>, True))
       \<or> ((plain_key kt k \<longrightarrow> (\<forall>j. \<not> holds (table s) j k)) \<and> remove kt s k = Returns (s, False))"
proof -
  let ?t = "table s" let ?n = "table_size s" let ?s = "std_hash kt k mod table_size s"
  have len: "length ?t = ?n" and n: "0 < ?n" and c: "chains_ok kt ?t"
    using inv by (simp_all add: invariants_def)
  have s: "?s < ?n" using n by simp
  from probe_returns[OF len s, of kt k] obtain r where
    r: "probe kt s k ?s ?s ?n = Returns r" and post: "probe_post kt ?t k ?s r" by blast
  show ?thesis
  proof (cases r)
    case (Match i)
    with post obtain e where "i < length ?t" "?t ! i = Some e" "in_use e" "key_eq kt (key e) k"
      by (auto simp: probe_post_def matches_def split: option.splits)
    then show ?thesis using ck n r Match by (auto simp: remove_def hash_def)
  next
    case (Vacant i)
    with post len obtain d where d: "d < length ?t" "?t ! ((?s + d) mod length ?t) = None"
      "passed kt ?t k ?s d" by (auto simp: probe_post_def)
    have "\<forall>j. \<not> holds ?t j k" if g: "plain_key kt k"
      using no_holder_vacant[OF c g, of d] d len by simp
    then show ?thesis using ck n r Vacant by (simp add: remove_def hash_def)
  next
    case Wrapped
    with post len have p: "passed kt ?t k ?s (length ?t)" by (simp add: probe_post_def)
    have "\<forall>j. \<not> holds ?t j k" if g: "plain_key kt k"
      using no_holder_wrapped[OF _ g, of ?t] p len n by simp
    then show ?thesis using ck n r Wrapped by (simp add: remove_def hash_def)
  qed
qed

lemma passed_all_occupied:
  assumes st: "start < length t" and p: "passed kt t k start (length t)" and i: "i < length t"
  shows "t ! i \<noteq> None"
proof -
  have n: "0 < length t" using i by (cases t) simp_all
  have "dist (length t) start i < length t" using dist_less[OF n] .
  with p have "case t ! ((start + dist (length t) start i) mod length t) of
      None \<Rightarrow> False | Some e \<Rightarrow> \<not> (in_use e \<and> key_eq kt (key e) k)" by (simp add: passed_def)
  then show ?thesis using offset_dist[OF st i] by (auto split: option.splits)
qed

lemma insert_returns_iff:
  assumes inv: "invariants kt s" and ck: "check_key kt k" and g: "plain_key kt k"
    and s1: "resize kt s = Returns s1"
  shows "(\<exists>s' b. insert_tbl (Suc fuel) kt s k v = Returns (s', b))
     \<longleftrightarrow> (\<exists>i. holds (table s1) i k) \<or> (\<exists>i < length (table s1). table s1 ! i = None)"
proof -
  from insert_unfold[OF inv ck, of "Suc fuel" v] s1 obtain r where
    post: "probe_post kt (table s1) k (std_hash kt k mod table_size s1) r"
    and ins: "insert_tbl (Suc fuel) kt s k v = (case r of
             Match index \<Rightarrow> Returns (s1\<lparr>table := (table s1)[index :=
                  map_option (\<lambda>e. e\<lparr>val := v\<rparr>) (table s1 ! index)]\<rparr>, True)
           | Vacant index \<Rightarrow> Returns (s1\<lparr>table := (table s1)[index :=
                  Some \<lparr>key = k, val = v, in_use = True\<rparr>],
                  item_count := item_count s1 + 1\<rparr>, True)
           | Wrapped \<Rightarrow> OutOfFuel)" by auto
  from resize_ok[OF inv] s1 have inv1: "invariants kt s1" by auto
  then have len: "length (table s1) = table_size s1" and n: "0 < table_size s1"
    and c: "chains_ok kt (table s1)" by (simp_all add: invariants_def)
  show ?thesis
  proof (cases r)
    case (Match i)
    with post have "holds (table s1) i k" using matches_plain[OF g] by (auto simp: probe_post_def)
    with ins Match show ?thesis by auto
  next
    case (Vacant i)
    with post len n have "i < length (table s1)" "table s1 ! i = None"
      by (auto simp: probe_post_def)
    with ins Vacant show ?thesis by auto
  next
    case Wrapped
    with post len have p: "passed kt (table s1) k (std_hash kt k mod length (table s1)) (length (table s1))"
      by (simp add: probe_post_def)
    have st: "std_hash kt k mod length (table s1) < length (table s1)" using len n by simp
    have "\<forall>j. \<not> holds (table s1) j k" using no_holder_wrapped[OF _ g p] len n by simp
    moreover have "\<forall>i < length (table s1). table s1 ! i \<noteq> None"
      using passed_all_occupied[OF st p] by blast
    ultimately show ?thesis using ins Wrapped by auto
  qed
qed

subsection \<open>The public members keep the invariants\<close>

lemma insert_inv:
  assumes inv: "invariants kt s" and ret: "insert_tbl fuel kt s k v = Returns (s', b)"
  shows "invariants kt s'" and "b = check_key kt k"
proof -
  have "invariants kt s' \<and> b = check_key kt k"
  proof (cases "check_key kt k")
    case False
    with ret have "s' = s" "b = False" by (cases fuel; simp)+
    with inv False show ?thesis by simp
  next
    case True
    from insert_returns[OF inv True ret] obtain s1 i where
      s1: "resize kt s = Returns s1" and b: "b" and i: "i < length (table s1)" and
      alt: "(\<exists>e. table s1 ! i = Some e \<and> in_use e \<and> key_eq kt (key e) k
           \<and> s' = s1\<lparr>table := (table s1)[i := Some (e\<lparr>val := v\<rparr>)]\<rparr>)
      \<or> (\<exists>d < length (table s1).
            i = (std_hash kt k mod length (table s1) + d) mod length (table s1)
          \<and> table s1 ! i = None \<and> passed kt (table s1) k (std_hash kt k mod length (table s1)) d
          \<and> s' = s1\<lparr>table := (table s1)[i := Some \<lparr>key = k, val = v, in_use = True\<rparr>],
                 item_count := item_count s1 + 1\<rparr>)" by blast
    from resize_ok[OF inv] s1 have inv1: "invariants kt s1" by auto
    have c1: "chains_ok kt (table s1)" using inv1 by (simp add: invariants_def)
    from alt show ?thesis
    proof
      assume "\<exists>e. table s1 ! i = Some e \<and> in_use e \<and> key_eq kt (key e) k
           \<and> s' = s1\<lparr>table := (table s1)[i := Some (e\<lparr>val := v\<rparr>)]\<rparr>"
      then obtain e where e: "table s1 ! i = Some e" "in_use e"
        "s' = s1\<lparr>table := (table s1)[i := Some (e\<lparr>val := v\<rparr>)]\<rparr>" by blast
      note o = overwrite_slot[OF c1 i e(1,2), of v]
      have "invariants kt s'" using inv1 o e(3) by (simp add: invariants_def)
      then show ?thesis using b True by simp
    next
      assume "\<exists>d < length (table s1).
            i = (std_hash kt k mod length (table s1) + d) mod length (table s1)
          \<and> table s1 ! i = None \<and> passed kt (table s1) k (std_hash kt k mod length (table s1)) d
          \<and> s' = s1\<lparr>table := (table s1)[i := Some \<lparr>key = k, val = v, in_use = True\<rparr>],
                 item_count := item_count s1 + 1\<rparr>"
      then obtain d where d: "d < length (table s1)"
        "i = (std_hash kt k mod length (table s1) + d) mod length (table s1)"
        "table s1 ! i = None" "passed kt (table s1) k (std_hash kt k mod length (table s1)) d"
        "s' = s1\<lparr>table := (table s1)[i := Some \<lparr>key = k, val = v, in_use = True\<rparr>],
                 item_count := item_count s1 + 1\<rparr>" by blast
      note f = fill_slot[OF c1 d(1-4) refl, of v]
      have "length (live_entries (table s')) \<le> length (table s')" by (rule length_live_entries)
      then have "invariants kt s'" using inv1 f d(5) by (simp add: invariants_def)
      then show ?thesis using b True by simp
    qed
  qed
  then show "invariants kt s'" and "b = check_key kt k" by simp_all
qed

lemma remove_inv:
  assumes inv: "invariants kt s"
  shows "\<exists>s' b. remove kt s k = Returns (s', b) \<and> invariants kt s'"
proof (cases "check_key kt k")
  case False
  then show ?thesis using inv by (intro exI[of _ s] exI[of _ False]) (simp add: remove_def)
next
  case True
  have c: "chains_ok kt (table s)" using inv by (simp add: invariants_def)
  from remove_cases[OF inv True] show ?thesis
  proof
    assume "\<exists>i e. i < length (table s) \<and> table s ! i = Some e \<and> in_use e \<and> key_eq kt (key e) k
            \<and> remove kt s k = Returns (s\<lparr>table := (table s)[i := Some (e\<lparr>in_use := False\<rparr>)],
                  item_count := item_count s - 1\<rparr>, True)"
    then obtain i e where e: "i < length (table s)" "table s ! i = Some e" "in_use e"
      "remove kt s k = Returns (s\<lparr>table := (table s)[i := Some (e\<lparr>in_use := False\<rparr>)],
                  item_count := item_count s - 1\<rparr>, True)" by blast
    note t = tombstone_slot[OF c e(1-3)]
    let ?s' = "s\<lparr>table := (table s)[i := Some (e\<lparr>in_use := False\<rparr>)], item_count := item_count s - 1\<rparr>"
    have "invariants kt ?s'" using inv t by (auto simp: invariants_def)
    then show ?thesis using e(4) by (intro exI[of _ ?s'] exI[of _ True]) simp
  next
    assume "(plain_key kt k \<longrightarrow> (\<forall>j. \<not> holds (table s) j k)) \<and> remove kt s k = Returns (s, False)"
    with inv show ?thesis by (intro exI[of _ s] exI[of _ False]) simp
  qed
qed

lemma find_returns:
  assumes inv: "invariants kt s"
  shows "\<exists>r. find_tbl kt s k = Returns (s, r)"
proof (cases "check_key kt k")
  case False
  then show ?thesis by (simp add: find_tbl_def)
next
  case True
  have len: "length (table s) = table_size s" and n: "0 < table_size s"
    using inv by (simp_all add: invariants_def)
  then have "std_hash kt k mod table_size s < table_size s" by simp
  from probe_returns[OF len this, of kt k] obtain r where
    "probe kt s k (std_hash kt k mod table_size s) (std_hash kt k mod table_size s) (table_size s)
       = Returns r" by blast
  then show ?thesis using True n by (cases r) (simp_all add: find_tbl_def hash_def)
qed

lemma insert_no_fault:
  assumes inv: "invariants kt s"
  shows "insert_tbl fuel kt s k v \<noteq> Fault x"
proof (cases "check_key kt k")
  case False
  then show ?thesis by (cases fuel) simp_all
next
  case True
  from insert_unfold[OF inv True, of fuel v] obtain s1 r where
    ins: "insert_tbl fuel kt s k v = (case fuel of 0 \<Rightarrow> OutOfFuel | Suc f \<Rightarrow>
          (case r of
             Match index \<Rightarrow> Returns (s1\<lparr>table := (table s1)[index :=
                  map_option (\<lambda>e. e\<lparr>val := v\<rparr>) (table s1 ! index)]\<rparr>, True)
           | Vacant index \<Rightarrow> Returns (s1\<lparr>table := (table s1)[index :=
                  Some \<lparr>key = k, val = v, in_use = True\<rparr>],
                  item_count := item_count s1 + 1\<rparr>, True)
           | Wrapped \<Rightarrow> OutOfFuel))" by blast
  show ?thesis
  proof (cases fuel)
    case 0
    then show ?thesis by simp
  next
    case (Suc f)
    with ins show ?thesis by (cases r) simp_all
  qed
qed

lemma run_call_inv:
  assumes inv: "invariants kt s" and ret: "run_call fuel kt s c = Returns s'"
  shows "invariants kt s'"
proof (cases c)
  case (Insert k v)
  with ret obtain b where "insert_tbl fuel kt s k v = Returns (s', b)"
    by (auto split: outcome.splits)
  from insert_inv(1)[OF inv this] show ?thesis .
next
  case (Find k)
  with ret find_returns[OF inv, of k] have "s' = s" by auto
  with inv show ?thesis by simp
next
  case (Remove k)
  with ret remove_inv[OF inv, of k] show ?thesis by auto
next
  case Size
  with ret inv show ?thesis by (simp add: size_tbl_def)
qed

lemma run_calls_inv:
  assumes "invariants kt s" "run_calls fuel kt s cs = Returns s'"
  shows "invariants kt s'"
  using assms
proof (induction cs arbitrary: s)
  case Nil
  then show ?case by simp
next
  case (Cons c cs)
  from Cons.prems(2) obtain s1 where s1: "run_call fuel kt s c = Returns s1"
    "run_calls fuel kt s1 cs = Returns s'" by (auto split: outcome.splits)
  from Cons.IH[OF run_call_inv[OF Cons.prems(1) s1(1)] s1(2)] show ?case .
qed

lemma run_call_no_fault:
  assumes inv: "invariants kt s"
  shows "run_call fuel kt s c \<noteq> Fault x"
proof (cases c)
  case (Insert k v)
  then show ?thesis using insert_no_fault[OF inv, of fuel k v]
    by (auto split: outcome.splits)
next
  case (Find k)
  then show ?thesis using find_returns[OF inv, of k] by auto
next
  case (Remove k)
  then show ?thesis using remove_inv[OF inv, of k] by auto
next
  case Size
  then show ?thesis by simp
qed

lemma run_calls_no_fault:
  assumes "invariants kt s"
  shows "run_calls fuel kt s cs \<noteq> Fault x"
  using assms
proof (induction cs arbitrary: s)
  case Nil
  then show ?case by simp
next
  case (Cons c cs)
  show ?case
  proof (cases "run_call fuel kt s c")
    case (Returns s1)
    from run_call_inv[OF Cons.prems Returns] Cons.IH[of s1] Returns show ?thesis by simp
  next
    case (Fault y)
    with run_call_no_fault[OF Cons.prems(1)] show ?thesis by blast
  next
    case OutOfFuel
    then show ?thesis by simp
  qed
qed

lemma new_ok:
  assumes "0 < n"
  shows "invariants kt (CustomHashTable_new n)"
    and "live_for (table (CustomHashTable_new n)) k = []"
    and "lookup (table (CustomHashTable_new n)) = Map.empty"
  using assms
  by (simp_all add: invariants_def CustomHashTable_new_def live_entries_replicate
      chains_ok_replicate live_for_def lookup_def)


subsection \<open>What the public members do to a plain key\<close>

lemma insert_key:
  assumes inv: "invariants kt s" and g: "plain_key kt k0" and u: "one_slot_for (table s) k0"
    and ret: "insert_tbl fuel kt s k v = Returns (s', b)"
  shows "one_slot_for (table s') k0"
    and "lookup (table s') k0 = (if check_key kt k \<and> k = k0 then Some v else lookup (table s) k0)"
proof -
  have "one_slot_for (table s') k0
      \<and> lookup (table s') k0 = (if check_key kt k \<and> k = k0 then Some v else lookup (table s) k0)"
  proof (cases "check_key kt k")
    case False
    with ret have "s' = s" by (cases fuel) simp_all
    with u False show ?thesis by simp
  next
    case True
    from insert_returns[OF inv True ret] obtain s1 i where
      s1: "resize kt s = Returns s1" and i: "i < length (table s1)" and
      alt: "(\<exists>e. table s1 ! i = Some e \<and> in_use e \<and> key_eq kt (key e) k
           \<and> s' = s1\<lparr>table := (table s1)[i := Some (e\<lparr>val := v\<rparr>)]\<rparr>)
      \<or> (\<exists>d < length (table s1).
            i = (std_hash kt k mod length (table s1) + d) mod length (table s1)
          \<and> table s1 ! i = None \<and> passed kt (table s1) k (std_hash kt k mod length (table s1)) d
          \<and> s' = s1\<lparr>table := (table s1)[i := Some \<lparr>key = k, val = v, in_use = True\<rparr>],
                 item_count := item_count s1 + 1\<rparr>)" by blast
    from resize_ok[OF inv] s1 have inv1: "invariants kt s1"
      and ms: "mset (live_entries (table s1)) = mset (live_entries (table s))" by auto
    have c1: "chains_ok kt (table s1)" using inv1 by (simp add: invariants_def)
    have l1: "live_for (table s1) k0 = live_for (table s) k0"
      using same_live_entries[OF ms u] .
    then have u1: "one_slot_for (table s1) k0" and lk1: "lookup (table s1) k0 = lookup (table s) k0"
      using u by (simp_all add: one_slot_for_def lookup_live_for)
    from alt show ?thesis
    proof
      assume "\<exists>e. table s1 ! i = Some e \<and> in_use e \<and> key_eq kt (key e) k
           \<and> s' = s1\<lparr>table := (table s1)[i := Some (e\<lparr>val := v\<rparr>)]\<rparr>"
      then obtain e where e: "table s1 ! i = Some e" "in_use e" "key_eq kt (key e) k"
        and s': "table s' = (table s1)[i := Some (e\<lparr>val := v\<rparr>)]" by auto
      have same: "key e = k0 \<longleftrightarrow> k = k0" using e(3) g by (auto simp: plain_key_def)
      note ch = live_for_change[OF i e(1,2), of "e\<lparr>val := v\<rparr>"]
      show ?thesis
      proof (cases "key e = k0")
        case True
        with ch(2) u1 have "live_for (table s') k0 = [e\<lparr>val := v\<rparr>]" using e(2) s' by simp
        then show ?thesis using True same \<open>check_key kt k\<close>
          by (simp add: one_slot_for_def lookup_live_for)
      next
        case False
        with ch(1) have "live_for (table s') k0 = live_for (table s1) k0" using e(2) s' by simp
        then show ?thesis using False same u1 lk1 by (simp add: one_slot_for_def lookup_live_for)
      qed
    next
      assume "\<exists>d < length (table s1).
            i = (std_hash kt k mod length (table s1) + d) mod length (table s1)
          \<and> table s1 ! i = None \<and> passed kt (table s1) k (std_hash kt k mod length (table s1)) d
          \<and> s' = s1\<lparr>table := (table s1)[i := Some \<lparr>key = k, val = v, in_use = True\<rparr>],
                 item_count := item_count s1 + 1\<rparr>"
      then obtain d where d: "d < length (table s1)"
        "table s1 ! ((std_hash kt k mod length (table s1) + d) mod length (table s1)) = None"
        "passed kt (table s1) k (std_hash kt k mod length (table s1)) d"
        and v: "table s1 ! i = None"
        and s': "table s' = (table s1)[i := Some \<lparr>key = k, val = v, in_use = True\<rparr>]" by auto
      note fl = live_for_fill[OF i v, of "\<lparr>key = k, val = v, in_use = True\<rparr>"]
      show ?thesis
      proof (cases "k = k0")
        case True
        with g have "\<forall>j. \<not> holds (table s1) j k" using no_holder_vacant[OF c1 _ d] by blast
        then have "live_for (table s1) k = []" by (rule live_for_Nil)
        with fl(2) have "live_for (table s') k = [\<lparr>key = k, val = v, in_use = True\<rparr>]"
          using s' by simp
        then show ?thesis using True \<open>check_key kt k\<close>
          by (simp add: one_slot_for_def lookup_live_for)
      next
        case False
        with fl(1) have "live_for (table s') k0 = live_for (table s1) k0" using s' by simp
        then show ?thesis using False u1 lk1 by (simp add: one_slot_for_def lookup_live_for)
      qed
    qed
  qed
  then show "one_slot_for (table s') k0"
    and "lookup (table s') k0 = (if check_key kt k \<and> k = k0 then Some v else lookup (table s) k0)"
    by simp_all
qed

lemma remove_key:
  assumes inv: "invariants kt s" and g: "plain_key kt k0" and u: "one_slot_for (table s) k0"
    and ret: "remove kt s k = Returns (s', b)"
  shows "one_slot_for (table s') k0"
    and "lookup (table s') k0 = (if check_key kt k \<and> k = k0 then None else lookup (table s) k0)"
proof -
  have "one_slot_for (table s') k0
      \<and> lookup (table s') k0 = (if check_key kt k \<and> k = k0 then None else lookup (table s) k0)"
  proof (cases "check_key kt k")
    case False
    with ret have "s' = s" by (simp add: remove_def)
    with u False show ?thesis by simp
  next
    case True
    from remove_cases[OF inv True] show ?thesis
    proof
      assume "\<exists>i e. i < length (table s) \<and> table s ! i = Some e \<and> in_use e \<and> key_eq kt (key e) k
            \<and> remove kt s k = Returns (s\<lparr>table := (table s)[i := Some (e\<lparr>in_use := False\<rparr>)],
                  item_count := item_count s - 1\<rparr>, True)"
      then obtain i e where e: "i < length (table s)" "table s ! i = Some e" "in_use e"
        "key_eq kt (key e) k"
        and s': "table s' = (table s)[i := Some (e\<lparr>in_use := False\<rparr>)]" using ret by auto
      have same: "key e = k0 \<longleftrightarrow> k = k0" using e(4) g by (auto simp: plain_key_def)
      note kl = live_for_kill[OF e(1-3), of "e\<lparr>in_use := False\<rparr>"]
      show ?thesis
      proof (cases "key e = k0")
        case T: True
        with kl(2) u have "live_for (table s') k0 = []" using s' by simp
        then show ?thesis using T same True by (simp add: one_slot_for_def lookup_live_for)
      next
        case F: False
        with kl(1) have "live_for (table s') k0 = live_for (table s) k0" using s' by simp
        then show ?thesis using F same u by (simp add: one_slot_for_def lookup_live_for)
      qed
    next
      assume a: "(plain_key kt k \<longrightarrow> (\<forall>j. \<not> holds (table s) j k)) \<and> remove kt s k = Returns (s, False)"
      with ret have s': "s' = s" by simp
      have "lookup (table s) k0 = None" if "k = k0"
        using that a g lookup_None[of "table s" k] by blast
      with s' u show ?thesis by auto
    qed
  qed
  then show "one_slot_for (table s') k0"
    and "lookup (table s') k0 = (if check_key kt k \<and> k = k0 then None else lookup (table s) k0)"
    by simp_all
qed

lemma last_written_append:
  "last_written kt (cs @ cs') m = last_written kt cs' (last_written kt cs m)"
  by (induction kt cs m rule: last_written.induct) simp_all

lemma last_written_cong:
  "m k = m' k \<Longrightarrow> last_written kt cs m k = last_written kt cs m' k"
proof (induction cs arbitrary: m m')
  case Nil
  then show ?case by simp
next
  case (Cons c cs)
  show ?case
  proof (cases c)
    case (Insert k' v)
    have "(if check_key kt k' then m(k' \<mapsto> v) else m) k = (if check_key kt k' then m'(k' \<mapsto> v) else m') k"
      using Cons.prems by simp
    with Cons.IH[of "if check_key kt k' then m(k' \<mapsto> v) else m"
        "if check_key kt k' then m'(k' \<mapsto> v) else m'"] Insert show ?thesis by simp
  next
    case (Remove k')
    have "(if check_key kt k' then m(k' := None) else m) k = (if check_key kt k' then m'(k' := None) else m') k"
      using Cons.prems by simp
    with Cons.IH[of "if check_key kt k' then m(k' := None) else m"
        "if check_key kt k' then m'(k' := None) else m'"] Remove show ?thesis by simp
  next
    case (Find k')
    with Cons.IH[of m m'] Cons.prems show ?thesis by simp
  next
    case Size
    with Cons.IH[of m m'] Cons.prems show ?thesis by simp
  qed
qed

lemma last_written_no_insert:
  "m k = None \<Longrightarrow> \<forall>c \<in> set cs. \<not> inserts k c \<Longrightarrow> last_written kt cs m k = None"
proof (induction cs arbitrary: m)
  case Nil
  then show ?case by simp
next
  case (Cons c cs)
  show ?case
  proof (cases c)
    case (Insert k' v)
    with Cons.prems have "k' \<noteq> k" by auto
    then have "(if check_key kt k' then m(k' \<mapsto> v) else m) k = None" using Cons.prems(1) by simp
    with Cons.IH[of "if check_key kt k' then m(k' \<mapsto> v) else m"] Cons.prems(2) Insert
    show ?thesis by simp
  next
    case (Remove k')
    have "(if check_key kt k' then m(k' := None) else m) k = None" using Cons.prems(1) by simp
    with Cons.IH[of "if check_key kt k' then m(k' := None) else m"] Cons.prems(2) Remove
    show ?thesis by simp
  next
    case (Find k')
    with Cons.IH[of m] Cons.prems show ?thesis by simp
  next
    case Size
    with Cons.IH[of m] Cons.prems show ?thesis by simp
  qed
qed

lemma last_written_accepted:
  "dom m \<subseteq> {k. check_key kt k} \<Longrightarrow> dom (last_written kt cs m) \<subseteq> {k. check_key kt k}"
proof (induction kt cs m rule: last_written.induct)
  case (2 kt k v cs m)
  have "dom (if check_key kt k then m(k \<mapsto> v) else m) \<subseteq> {k. check_key kt k}"
    using 2(2) by (cases "check_key kt k") simp_all
  from 2(1)[OF this] show ?case by simp
next
  case (3 kt k cs m)
  have "dom (if check_key kt k then m(k := None) else m) \<subseteq> {k. check_key kt k}"
    using 3(2) by (cases "check_key kt k") auto
  from 3(1)[OF this] show ?case by simp
qed simp_all

lemma run_call_key:
  assumes inv: "invariants kt s" and g: "plain_key kt k0" and u: "one_slot_for (table s) k0"
    and ret: "run_call fuel kt s c = Returns s'"
  shows "one_slot_for (table s') k0"
    and "lookup (table s') k0 = last_written kt [c] (lookup (table s)) k0"
proof -
  have "one_slot_for (table s') k0
      \<and> lookup (table s') k0 = last_written kt [c] (lookup (table s)) k0"
  proof (cases c)
    case (Insert k v)
    with ret obtain b where "insert_tbl fuel kt s k v = Returns (s', b)"
      by (auto split: outcome.splits)
    from insert_key[OF inv g u this] Insert show ?thesis by auto
  next
    case (Find k)
    with ret find_returns[OF inv, of k] have "s' = s" by auto
    with u Find show ?thesis by simp
  next
    case (Remove k)
    with ret obtain b where "remove kt s k = Returns (s', b)"
      by (auto split: outcome.splits)
    from remove_key[OF inv g u this] Remove show ?thesis by auto
  next
    case Size
    with ret u show ?thesis by (simp add: size_tbl_def)
  qed
  then show "one_slot_for (table s') k0"
    and "lookup (table s') k0 = last_written kt [c] (lookup (table s)) k0" by simp_all
qed

lemma run_calls_key:
  assumes "invariants kt s" "plain_key kt k0" "one_slot_for (table s) k0"
    "run_calls fuel kt s cs = Returns s'"
  shows "one_slot_for (table s') k0
       \<and> lookup (table s') k0 = last_written kt cs (lookup (table s)) k0"
  using assms
proof (induction cs arbitrary: s)
  case Nil
  then show ?case by simp
next
  case (Cons c cs)
  from Cons.prems(4) obtain s1 where s1: "run_call fuel kt s c = Returns s1"
    "run_calls fuel kt s1 cs = Returns s'" by (auto split: outcome.splits)
  note a = run_call_key[OF Cons.prems(1-3) s1(1)]
  note i1 = run_call_inv[OF Cons.prems(1) s1(1)]
  from Cons.IH[OF i1 Cons.prems(2) a(1) s1(2)] have
    b: "one_slot_for (table s') k0" "lookup (table s') k0 = last_written kt cs (lookup (table s1)) k0"
    by simp_all
  have "last_written kt cs (lookup (table s1)) k0
      = last_written kt cs (last_written kt [c] (lookup (table s))) k0"
    using last_written_cong[where m = "lookup (table s1)" and k = k0
        and m' = "last_written kt [c] (lookup (table s))", OF a(2)] .
  also have "\<dots> = last_written kt (c # cs) (lookup (table s)) k0"
    using last_written_append[of kt "[c]" cs] by simp
  finally show ?case using b by simp
qed

lemma run_calls_new:
  assumes "0 < n" "run_calls fuel kt (CustomHashTable_new n) cs = Returns s"
  shows "invariants kt s"
    and "plain_key kt k \<Longrightarrow> one_slot_for (table s) k"
    and "plain_key kt k \<Longrightarrow> lookup (table s) k = last_written kt cs Map.empty k"
proof -
  show "invariants kt s" using run_calls_inv[OF new_ok(1)[OF assms(1)] assms(2)] .
  assume g: "plain_key kt k"
  have "one_slot_for (table s) k
      \<and> lookup (table s) k = last_written kt cs (lookup (table (CustomHashTable_new n))) k"
    by (rule run_calls_key[OF new_ok(1)[OF assms(1)] g _ assms(2)])
      (simp add: one_slot_for_def new_ok(2)[OF assms(1)])
  then show "one_slot_for (table s) k" "lookup (table s) k = last_written kt cs Map.empty k"
    by (simp_all add: new_ok(3)[OF assms(1)])
qed

lemma reached_accepted:
  assumes "0 < n" "run_calls fuel kt (CustomHashTable_new n) cs = Returns s"
    and "plain_key kt k" "holds (table s) i k"
  shows "check_key kt k"
proof -
  have "last_written kt cs Map.empty k \<noteq> None"
    using holds_lookup[OF assms(4)] run_calls_new(3)[OF assms(1,2,3)] by simp
  then have "k \<in> dom (last_written kt cs Map.empty)" by (simp add: dom_def)
  then show ?thesis using last_written_accepted[of Map.empty kt cs] by auto
qed


subsection \<open>The tables of the examples\<close>

lemma int_keys_plain: "plain_key int_keys k"
  by (auto simp: plain_key_def int_keys_def)

text \<open>Every number of \<open>double_keys\<close> is a plain key, and NaN is not.\<close>

lemma double_keys_plain: "plain_key double_keys (Num x)"
  by (auto simp: plain_key_def double_keys_def dbl_eq_def split: dbl.splits)

lemma nan_not_plain: "\<not> plain_key double_keys NaN"
  by (auto simp: plain_key_def double_keys_def dbl_eq_def split: dbl.splits)

lemma after_history_reached:
  "run_calls 1 int_keys (CustomHashTable_new 2) history = Returns after_history"
  by code_simp

lemma two_of_two_reached:
  "run_calls 1 int_keys (CustomHashTable_new 2) [Insert 1 ''one'', Insert 2 ''two'']
     = Returns two_of_two"
  by code_simp

lemma after_history_ok: "invariants int_keys after_history"
  using run_calls_new(1)[OF _ after_history_reached] by simp

lemma two_of_two_ok: "invariants int_keys two_of_two"
  using run_calls_new(1)[OF _ two_of_two_reached] by simp

text \<open>The path of \<^verbatim>\<open>check_key\<close> for the two pointer types it names.\<close>

lemma null_key_rejected:
  assumes "is_int_or_char_ptr kt" and "is_nullptr kt k"
  shows "insert_tbl (Suc fuel) kt s k v = Returns (s, False)
       \<and> find_tbl kt s k = Returns (s, None)
       \<and> remove kt s k = Returns (s, False)"
  using assms by (simp add: check_key_def find_tbl_def remove_def)

section \<open>Insertion and lookup\<close>

text \<open>
  C1 (as amended). Let \<open>k\<close> be an accepted key that \<^verbatim>\<open>operator==\<close> equates with itself
  and with no other key. In a table built from an empty one of positive capacity by any
  sequence of calls that have all returned (growth included, whenever an insert triggered
  it; the other keys of the calls may be any), \<^verbatim>\<open>find(k)\<close> returns the value last
  written for \<open>k\<close> by an \<^verbatim>\<open>insert\<close> and not removed since, and not-found when there is
  none. In particular, when a further \<^verbatim>\<open>insert(k, v)\<close> returns, it returns true and
  \<^verbatim>\<open>find(k)\<close> then returns \<open>v\<close>.
\<close>

theorem found_until_removed_or_overwritten:
  assumes "0 < n" and "run_calls fuel kt (CustomHashTable_new n) cs = Returns s"
    and "check_key kt k" and "plain_key kt k"
  shows "find_tbl kt s k = Returns (s, last_written kt cs Map.empty k)
     \<and> (\<forall>fuel' v s' b. insert_tbl fuel' kt s k v = Returns (s', b)
           \<longrightarrow> b \<and> find_tbl kt s' k = Returns (s', Some v))"
proof -
  note r = run_calls_new[OF assms(1,2)]
  note u = r(2)[OF assms(4)]
  have "find_tbl kt s k = Returns (s, last_written kt cs Map.empty k)"
    using find_lookup[OF r(1) assms(4) u] assms(3) r(3)[OF assms(4)] by simp
  moreover have "b \<and> find_tbl kt s' k = Returns (s', Some v)"
    if i: "insert_tbl fuel' kt s k v = Returns (s', b)" for fuel' v s' b
  proof -
    note o = insert_inv[OF r(1) i]
    note p = insert_key[OF r(1) assms(4) u i]
    have "lookup (table s') k = Some v" using p(2) assms(3) by simp
    then show ?thesis using find_lookup[OF o(1) assms(4) p(1)] assms(3) o(2) by simp
  qed
  ultimately show ?thesis by blast
qed

theorem found_until_removed_or_overwritten_witness:
  "(0::nat) < 2
   \<and> run_calls 1 int_keys (CustomHashTable_new 2) history = Returns after_history
   \<and> check_key int_keys 1 \<and> plain_key int_keys 1
   \<and> find_tbl int_keys after_history 1 = Returns (after_history, Some ''uno'')
   \<and> insert_tbl 1 int_keys after_history 1 ''eins''
       = Returns (after_history\<lparr>table := (table after_history)
                    [1 := Some \<lparr>key = 1, val = ''eins'', in_use = True\<rparr>]\<rparr>, True)
   \<and> find_tbl int_keys (after_history\<lparr>table := (table after_history)
                    [1 := Some \<lparr>key = 1, val = ''eins'', in_use = True\<rparr>]\<rparr>) 1
       = Returns (after_history\<lparr>table := (table after_history)
                    [1 := Some \<lparr>key = 1, val = ''eins'', in_use = True\<rparr>]\<rparr>, Some ''eins'')"
proof -
  have n: "(0::nat) < 2" by simp
  note r = after_history_reached
  have c: "check_key int_keys 1" by code_simp
  note g = int_keys_plain[of 1]
  have l: "last_written int_keys history Map.empty 1 = Some ''uno''" by code_simp
  have i: "insert_tbl 1 int_keys after_history 1 ''eins''
       = Returns (after_history\<lparr>table := (table after_history)
                    [1 := Some \<lparr>key = 1, val = ''eins'', in_use = True\<rparr>]\<rparr>, True)"
    by code_simp
  note t = found_until_removed_or_overwritten[OF n r c g]
  from t have "find_tbl int_keys after_history 1
      = Returns (after_history, last_written int_keys history Map.empty 1)" by (rule conjunct1)
  then have f: "find_tbl int_keys after_history 1 = Returns (after_history, Some ''uno'')"
    unfolding l .
  note h = t[THEN conjunct2, rule_format, OF i, THEN conjunct2]
  show ?thesis by (intro conjI n r c g f i h)
qed

text \<open>
  C1 as stated fails for a key that \<^verbatim>\<open>operator==\<close> does not equate with itself: with
  \<^verbatim>\<open>Key = double\<close>, \<^verbatim>\<open>insert(NaN, "a")\<close> on an empty table of four slots returns
  true and stores the entry, and \<^verbatim>\<open>find(NaN)\<close> on the table left reports not-found.
\<close>

theorem nan_inserted_not_found_counterexample:
  "check_key double_keys NaN
   \<and> insert_tbl 1 double_keys (CustomHashTable_new 4) NaN ''a''
       = Returns (\<lparr>table = [Some \<lparr>key = NaN, val = ''a'', in_use = True\<rparr>, None, None, None],
           table_size = 4, item_count = 1\<rparr>, True)
   \<and> find_tbl double_keys
          \<lparr>table = [Some \<lparr>key = NaN, val = ''a'', in_use = True\<rparr>, None, None, None],
           table_size = 4, item_count = 1\<rparr> NaN
       = Returns (\<lparr>table = [Some \<lparr>key = NaN, val = ''a'', in_use = True\<rparr>, None, None, None],
           table_size = 4, item_count = 1\<rparr>, None)"
  by code_simp

text \<open>
  C2. On a table of two slots, after \<^verbatim>\<open>insert(1)\<close>, \<^verbatim>\<open>insert(2)\<close> and
  \<^verbatim>\<open>remove(1)\<close>, the call \<^verbatim>\<open>insert(3)\<close> does not return, whatever the depth of
  recursion allowed: one slot is live, the other a tombstone, the probe comes back to
  \<^verbatim>\<open>original_index\<close>, the \<^verbatim>\<open>resize()\<close> of the retry does nothing because
  \<^verbatim>\<open>item_count * 2 \<le> table_size\<close>, and \<^verbatim>\<open>insert\<close> calls itself on the same table.
\<close>

theorem insert_after_remove_never_returns:
  "run_calls 1 int_keys (CustomHashTable_new 2) [Insert 1 ''one'', Insert 2 ''two'', Remove 1]
     = Returns \<lparr>table = [Some \<lparr>key = 2, val = ''two'', in_use = True\<rparr>,
                           Some \<lparr>key = 1, val = ''one'', in_use = False\<rparr>],
                 table_size = 2, item_count = 1\<rparr>
   \<and> check_key int_keys 3
   \<and> (\<forall>fuel. insert_tbl fuel int_keys
          \<lparr>table = [Some \<lparr>key = 2, val = ''two'', in_use = True\<rparr>,
                    Some \<lparr>key = 1, val = ''one'', in_use = False\<rparr>],
           table_size = 2, item_count = 1\<rparr> 3 ''three'' = OutOfFuel)"
proof -
  let ?s = "\<lparr>table = [Some \<lparr>key = 2::nat, val = ''two'', in_use = True\<rparr>,
                    Some \<lparr>key = 1, val = ''one'', in_use = False\<rparr>],
           table_size = 2, item_count = 1\<rparr>"
  have r: "run_calls 1 int_keys (CustomHashTable_new 2) [Insert 1 ''one'', Insert 2 ''two'', Remove 1]
     = Returns ?s" by code_simp
  have c: "check_key int_keys 3" by code_simp
  have g: "\<not> table_size ?s < item_count ?s * 2" by simp
  have n: "0 < table_size ?s" by simp
  have w: "probe int_keys ?s 3 (std_hash int_keys 3 mod table_size ?s) (std_hash int_keys 3 mod table_size ?s)
      (table_size ?s) = Returns Wrapped" by code_simp
  have "insert_tbl fuel int_keys ?s 3 ''three'' = OutOfFuel" for fuel
    using insert_stuck[OF c g n w] .
  with r c show ?thesis by blast
qed

section \<open>Growth\<close>

text \<open>
  C3. On a table that satisfies the invariants \<^verbatim>\<open>resize\<close> returns. When
  \<^verbatim>\<open>item_count * 2 > table_size\<close> the table it leaves has exactly twice the capacity,
  no tombstone, the same live entries (as a multiset, so the same key-value pairs and the
  same count), each reachable by linear probing from the hash of its key modulo the new
  capacity; otherwise the table is unchanged. An \<^verbatim>\<open>insert\<close> of an accepted key that
  returns leaves the capacity that this one \<^verbatim>\<open>resize\<close>, run first, has left.
\<close>

theorem growth_spec:
  assumes "invariants kt s"
  shows "\<exists>s1. resize kt s = Returns s1
     \<and> (if table_size s < item_count s * 2
        then table_size s1 = 2 * table_size s \<and> length (table s1) = 2 * table_size s
           \<and> no_tombstones (table s1) \<and> chains_ok kt (table s1)
           \<and> mset (live_entries (table s1)) = mset (live_entries (table s))
           \<and> item_count s1 = item_count s
        else s1 = s)
     \<and> (\<forall>s' b. check_key kt k \<and> insert_tbl fuel kt s k v = Returns (s', b)
           \<longrightarrow> table_size s' = table_size s1)"
proof -
  from resize_ok[OF assms] obtain s1 where s1: "resize kt s = Returns s1" "invariants kt s1"
    "item_count s1 = item_count s"
    "mset (live_entries (table s1)) = mset (live_entries (table s))"
    "if table_size s < item_count s * 2
          then table_size s1 = table_size s * 2 \<and> no_tombstones (table s1)
          else s1 = s" by blast
  have "table_size s' = table_size s1"
    if "check_key kt k" "insert_tbl fuel kt s k v = Returns (s', b)" for s' b
    using insert_returns[OF assms that] s1(1) by auto
  moreover have "length (table s1) = table_size s1" "chains_ok kt (table s1)"
    using s1(2) by (simp_all add: invariants_def)
  ultimately show ?thesis using s1 by (intro exI[of _ s1]) (auto split: if_splits)
qed

theorem growth_spec_witness:
  "invariants int_keys two_of_two
   \<and> table_size two_of_two < item_count two_of_two * 2
   \<and> resize int_keys two_of_two
       = Returns \<lparr>table = [None, Some \<lparr>key = 1, val = ''one'', in_use = True\<rparr>,
                            Some \<lparr>key = 2, val = ''two'', in_use = True\<rparr>, None],
                  table_size = 4, item_count = 2\<rparr>
   \<and> check_key int_keys 3
   \<and> insert_tbl 1 int_keys two_of_two 3 ''three''
       = Returns (\<lparr>table = [None, Some \<lparr>key = 1, val = ''one'', in_use = True\<rparr>,
                            Some \<lparr>key = 2, val = ''two'', in_use = True\<rparr>,
                            Some \<lparr>key = 3, val = ''three'', in_use = True\<rparr>],
                  table_size = 4, item_count = 3\<rparr>, True)
   \<and> table_size \<lparr>table = [None, Some \<lparr>key = 1::nat, val = ''one'', in_use = True\<rparr>,
                            Some \<lparr>key = 2, val = ''two'', in_use = True\<rparr>,
                            Some \<lparr>key = 3, val = ''three'', in_use = True\<rparr>],
                  table_size = 4, item_count = 3\<rparr>
       = table_size \<lparr>table = [None, Some \<lparr>key = 1::nat, val = ''one'', in_use = True\<rparr>,
                            Some \<lparr>key = 2, val = ''two'', in_use = True\<rparr>, None],
                  table_size = 4, item_count = 2\<rparr>"
proof -
  note h = two_of_two_ok
  have g: "table_size two_of_two < item_count two_of_two * 2" by code_simp
  have r: "resize int_keys two_of_two
       = Returns \<lparr>table = [None, Some \<lparr>key = 1, val = ''one'', in_use = True\<rparr>,
                            Some \<lparr>key = 2, val = ''two'', in_use = True\<rparr>, None],
                  table_size = 4, item_count = 2\<rparr>" by code_simp
  have c: "check_key int_keys 3" by code_simp
  have i: "insert_tbl 1 int_keys two_of_two 3 ''three''
       = Returns (\<lparr>table = [None, Some \<lparr>key = 1, val = ''one'', in_use = True\<rparr>,
                            Some \<lparr>key = 2, val = ''two'', in_use = True\<rparr>,
                            Some \<lparr>key = 3, val = ''three'', in_use = True\<rparr>],
                  table_size = 4, item_count = 3\<rparr>, True)" by code_simp
  from growth_spec[OF h, of 3 1 "''three''"] obtain s1 where
    s1: "resize int_keys two_of_two = Returns s1"
    and a: "\<forall>s' b. check_key int_keys 3 \<and> insert_tbl 1 int_keys two_of_two 3 ''three'' = Returns (s', b)
           \<longrightarrow> table_size s' = table_size s1" by (elim exE conjE)
  from s1 r have e: "s1 = \<lparr>table = [None, Some \<lparr>key = 1, val = ''one'', in_use = True\<rparr>,
                            Some \<lparr>key = 2, val = ''two'', in_use = True\<rparr>, None],
                  table_size = 4, item_count = 2\<rparr>" by (simp only: outcome.inject)
  note x = a[rule_format, OF conjI[OF c i], unfolded e]
  show ?thesis by (intro conjI h g r c i x)
qed

section \<open>Removal\<close>

text \<open>
  C4 (as amended). Let \<open>k\<close> be a key that \<^verbatim>\<open>operator==\<close> equates with itself and with
  no other key. On a table built from an empty one of positive capacity by any sequence of
  calls, \<^verbatim>\<open>remove(k)\<close> returns; it returns true exactly when a live slot holds \<open>k\<close>.
  Then that slot's flag is set to false, \<^verbatim>\<open>item_count\<close> is one less (it was not zero),
  nothing else changes, and \<^verbatim>\<open>find(k)\<close> reports not-found on the table left. When it
  returns false the table is unchanged. In both cases \<^verbatim>\<open>find(k)\<close> reports not-found
  after any further calls that have returned, as long as none of them is an
  \<^verbatim>\<open>insert\<close> of \<open>k\<close>.
\<close>

theorem remove_spec:
  assumes n: "0 < n" and run: "run_calls fuel kt (CustomHashTable_new n) cs = Returns s"
    and g: "plain_key kt k"
  shows "\<exists>s' b. remove kt s k = Returns (s', b)
     \<and> (b \<longleftrightarrow> (\<exists>i. holds (table s) i k))
     \<and> (if b then
           (\<exists>i e. i < length (table s) \<and> table s ! i = Some e \<and> in_use e \<and> key e = k
              \<and> s' = s\<lparr>table := (table s)[i := Some (e\<lparr>in_use := False\<rparr>)],
                       item_count := item_count s - 1\<rparr>)
           \<and> Suc (item_count s') = item_count s
           \<and> find_tbl kt s' k = Returns (s', None)
         else s' = s)
     \<and> (\<forall>fuel' cs' s''. (\<forall>c \<in> set cs'. \<not> inserts k c)
             \<and> run_calls fuel' kt s' cs' = Returns s''
           \<longrightarrow> find_tbl kt s'' k = Returns (s'', None))"
proof -
  note r = run_calls_new[OF n run]
  note inv = r(1) and u = r(2)[OF g]
  from remove_inv[OF inv, of k] obtain s' b where ret: "remove kt s k = Returns (s', b)"
    and inv': "invariants kt s'" by blast
  note rk = remove_key[OF inv g u ret]
  have c: "chains_ok kt (table s)" using inv by (simp add: invariants_def)
  have first: "(b \<longleftrightarrow> (\<exists>i. holds (table s) i k))
     \<and> (if b then
           (\<exists>i e. i < length (table s) \<and> table s ! i = Some e \<and> in_use e \<and> key e = k
              \<and> s' = s\<lparr>table := (table s)[i := Some (e\<lparr>in_use := False\<rparr>)],
                       item_count := item_count s - 1\<rparr>)
           \<and> Suc (item_count s') = item_count s
           \<and> find_tbl kt s' k = Returns (s', None)
         else s' = s)
     \<and> lookup (table s') k = None"
  proof (cases "check_key kt k")
    case False
    then have "\<forall>i. \<not> holds (table s) i k" using reached_accepted[OF n run g] by blast
    moreover have "remove kt s k = Returns (s, False)" using False by (simp add: remove_def)
    ultimately show ?thesis using ret lookup_None[of "table s" k] by simp
  next
    case True
    then have lk: "lookup (table s') k = None" using rk(2) by simp
    from remove_cases[OF inv True] show ?thesis
    proof
      assume "\<exists>i e. i < length (table s) \<and> table s ! i = Some e \<and> in_use e \<and> key_eq kt (key e) k
            \<and> remove kt s k = Returns (s\<lparr>table := (table s)[i := Some (e\<lparr>in_use := False\<rparr>)],
                  item_count := item_count s - 1\<rparr>, True)"
      then obtain i e where e: "i < length (table s)" "table s ! i = Some e" "in_use e"
        "key_eq kt (key e) k"
        "remove kt s k = Returns (s\<lparr>table := (table s)[i := Some (e\<lparr>in_use := False\<rparr>)],
                  item_count := item_count s - 1\<rparr>, True)" by blast
      have ke: "key e = k" using e(4) g by (simp add: plain_key_def)
      have h: "holds (table s) i k" using e(1-3) ke by (simp add: holds_def)
      have s': "s' = s\<lparr>table := (table s)[i := Some (e\<lparr>in_use := False\<rparr>)],
                  item_count := item_count s - 1\<rparr>" and b: "b" using ret e(5) by simp_all
      have "Suc (length (live_entries (table s'))) = length (live_entries (table s))"
        using tombstone_slot(2)[OF c e(1-3)] s' by simp
      then have cnt: "Suc (item_count s') = item_count s"
        using inv inv' by (simp add: invariants_def)
      have f: "find_tbl kt s' k = Returns (s', None)"
        using find_lookup[OF inv' g rk(1)] lk by simp
      from b h e(1-3) ke s' cnt f lk show ?thesis by auto
    next
      assume "(plain_key kt k \<longrightarrow> (\<forall>j. \<not> holds (table s) j k)) \<and> remove kt s k = Returns (s, False)"
      with ret g lk show ?thesis by auto
    qed
  qed
  have later: "find_tbl kt s'' k = Returns (s'', None)"
    if ni: "\<forall>c \<in> set cs'. \<not> inserts k c" and run': "run_calls fuel' kt s' cs' = Returns s''"
    for fuel' cs' s''
  proof -
    from run_calls_key[OF inv' g rk(1) run'] have u'': "one_slot_for (table s'') k"
      and l: "lookup (table s'') k = last_written kt cs' (lookup (table s')) k" by simp_all
    have "last_written kt cs' (lookup (table s')) k = None"
      using last_written_no_insert[OF _ ni] first by simp
    with l have "lookup (table s'') k = None" by simp
    then show ?thesis using find_lookup[OF run_calls_inv[OF inv' run'] g u''] by simp
  qed
  from ret first later show ?thesis by blast
qed

theorem remove_spec_witness:
  "(0::nat) < 2
   \<and> run_calls 1 int_keys (CustomHashTable_new 2) history = Returns after_history
   \<and> plain_key int_keys 3
   \<and> remove int_keys after_history 3
       = Returns (after_history\<lparr>table := (table after_history)
                    [3 := Some \<lparr>key = 3, val = ''three'', in_use = False\<rparr>],
                    item_count := 1\<rparr>, True)
   \<and> find_tbl int_keys (after_history\<lparr>table := (table after_history)
                    [3 := Some \<lparr>key = 3, val = ''three'', in_use = False\<rparr>],
                    item_count := 1\<rparr>) 3
       = Returns (after_history\<lparr>table := (table after_history)
                    [3 := Some \<lparr>key = 3, val = ''three'', in_use = False\<rparr>],
                    item_count := 1\<rparr>, None)
   \<and> list_all (\<lambda>c. \<not> inserts (3::nat) c) [Insert 4 ''four'', Remove 1, Find 3]
   \<and> run_calls 1 int_keys (after_history\<lparr>table := (table after_history)
                    [3 := Some \<lparr>key = 3, val = ''three'', in_use = False\<rparr>],
                    item_count := 1\<rparr>) [Insert 4 ''four'', Remove 1, Find 3]
       = Returns \<lparr>table = [None, Some \<lparr>key = 1, val = ''uno'', in_use = False\<rparr>,
               Some \<lparr>key = 2, val = ''two'', in_use = False\<rparr>,
               Some \<lparr>key = 3, val = ''three'', in_use = False\<rparr>,
               Some \<lparr>key = 4, val = ''four'', in_use = True\<rparr>, None, None, None],
             table_size = 8, item_count = 1\<rparr>
   \<and> find_tbl int_keys \<lparr>table = [None, Some \<lparr>key = 1, val = ''uno'', in_use = False\<rparr>,
               Some \<lparr>key = 2, val = ''two'', in_use = False\<rparr>,
               Some \<lparr>key = 3, val = ''three'', in_use = False\<rparr>,
               Some \<lparr>key = 4, val = ''four'', in_use = True\<rparr>, None, None, None],
             table_size = 8, item_count = 1\<rparr> 3
       = Returns (\<lparr>table = [None, Some \<lparr>key = 1, val = ''uno'', in_use = False\<rparr>,
               Some \<lparr>key = 2, val = ''two'', in_use = False\<rparr>,
               Some \<lparr>key = 3, val = ''three'', in_use = False\<rparr>,
               Some \<lparr>key = 4, val = ''four'', in_use = True\<rparr>, None, None, None],
             table_size = 8, item_count = 1\<rparr>, None)"
proof -
  have n: "(0::nat) < 2" by simp
  note g = int_keys_plain[of 3]
  have r: "remove int_keys after_history 3
       = Returns (after_history\<lparr>table := (table after_history)
                    [3 := Some \<lparr>key = 3, val = ''three'', in_use = False\<rparr>],
                    item_count := 1\<rparr>, True)" by code_simp
  have ni: "list_all (\<lambda>c. \<not> inserts (3::nat) c) [Insert 4 ''four'', Remove 1, Find 3]"
    by code_simp
  then have ni': "\<forall>c \<in> set [Insert 4 ''four'', Remove 1, Find 3]. \<not> inserts (3::nat) c"
    by (simp only: list_all_iff)
  have run': "run_calls 1 int_keys (after_history\<lparr>table := (table after_history)
                    [3 := Some \<lparr>key = 3, val = ''three'', in_use = False\<rparr>],
                    item_count := 1\<rparr>) [Insert 4 ''four'', Remove 1, Find 3]
       = Returns \<lparr>table = [None, Some \<lparr>key = 1, val = ''uno'', in_use = False\<rparr>,
               Some \<lparr>key = 2, val = ''two'', in_use = False\<rparr>,
               Some \<lparr>key = 3, val = ''three'', in_use = False\<rparr>,
               Some \<lparr>key = 4, val = ''four'', in_use = True\<rparr>, None, None, None],
             table_size = 8, item_count = 1\<rparr>" by code_simp
  from remove_spec[OF n after_history_reached g] obtain s' b where
    s': "remove int_keys after_history 3 = Returns (s', b)"
    and a: "if b then
           (\<exists>i e. i < length (table after_history) \<and> table after_history ! i = Some e
              \<and> in_use e \<and> key e = 3
              \<and> s' = after_history\<lparr>table := (table after_history)[i := Some (e\<lparr>in_use := False\<rparr>)],
                       item_count := item_count after_history - 1\<rparr>)
           \<and> Suc (item_count s') = item_count after_history
           \<and> find_tbl int_keys s' 3 = Returns (s', None)
         else s' = after_history"
    and l: "\<forall>fuel' cs' s''. (\<forall>c \<in> set cs'. \<not> inserts 3 c)
             \<and> run_calls fuel' int_keys s' cs' = Returns s''
           \<longrightarrow> find_tbl int_keys s'' 3 = Returns (s'', None)" by (elim exE conjE)
  from s' r have e: "s' = after_history\<lparr>table := (table after_history)
                    [3 := Some \<lparr>key = 3, val = ''three'', in_use = False\<rparr>],
                    item_count := 1\<rparr>" "b"
    by (simp_all only: outcome.inject prod.inject)
  from a e(2) have "find_tbl int_keys s' 3 = Returns (s', None)" by (simp only: if_True)
  note f = this[unfolded e(1)]
  note later = l[unfolded e(1), rule_format, OF conjI[OF ni' run']]
  show ?thesis by (intro conjI n after_history_reached g r f ni run' later)
qed

text \<open>
  C4 as stated fails for a key that \<^verbatim>\<open>operator==\<close> does not equate with itself: with
  \<^verbatim>\<open>Key = double\<close>, after \<^verbatim>\<open>insert(NaN, "a")\<close> on an empty table of four slots a live
  slot holds NaN, and \<^verbatim>\<open>remove(NaN)\<close> returns false and leaves the table as it was.
\<close>

theorem nan_held_not_removed_counterexample:
  "run_calls 1 double_keys (CustomHashTable_new 4) [Insert NaN ''a'']
       = Returns \<lparr>table = [Some \<lparr>key = NaN, val = ''a'', in_use = True\<rparr>, None, None, None],
           table_size = 4, item_count = 1\<rparr>
   \<and> holds (table \<lparr>table = [Some \<lparr>key = NaN, val = ''a'', in_use = True\<rparr>, None, None, None],
           table_size = 4, item_count = 1\<rparr>) 0 NaN
   \<and> remove double_keys
          \<lparr>table = [Some \<lparr>key = NaN, val = ''a'', in_use = True\<rparr>, None, None, None],
           table_size = 4, item_count = 1\<rparr> NaN
       = Returns (\<lparr>table = [Some \<lparr>key = NaN, val = ''a'', in_use = True\<rparr>, None, None, None],
           table_size = 4, item_count = 1\<rparr>, False)"
  by code_simp

section \<open>Overwriting\<close>

text \<open>
  C5 (as amended). Let \<open>k\<close> be a key that \<^verbatim>\<open>operator==\<close> equates with itself and with
  no other key. A table built from an empty one of positive capacity by any sequence of
  calls has at most one live slot for \<open>k\<close>. When a live slot holds \<open>k\<close>,
  \<^verbatim>\<open>insert\<close> of \<open>k\<close> returns true (with any depth of recursion allowed) and changes only
  the value of the slot that holds \<open>k\<close> in the table left by the \<^verbatim>\<open>resize()\<close> it
  starts with (the table itself when \<^verbatim>\<open>item_count * 2 \<le> table_size\<close>): the number of
  live slots and \<^verbatim>\<open>size()\<close> are what they were, and there is still at most one live
  slot for \<open>k\<close>.
\<close>

theorem reinsert_overwrites:
  assumes n: "0 < n" and run: "run_calls fuel0 kt (CustomHashTable_new n) cs = Returns s"
    and g: "plain_key kt k"
  shows "one_slot_for (table s) k
     \<and> (holds (table s) j k \<longrightarrow>
         (\<exists>s1 i e. resize kt s = Returns s1 \<and> (\<not> table_size s < item_count s * 2 \<longrightarrow> s1 = s)
            \<and> i < length (table s1) \<and> table s1 ! i = Some e \<and> in_use e \<and> key e = k
            \<and> insert_tbl (Suc fuel) kt s k v
                = Returns (s1\<lparr>table := (table s1)[i := Some (e\<lparr>val := v\<rparr>)]\<rparr>, True)
            \<and> length (live_entries ((table s1)[i := Some (e\<lparr>val := v\<rparr>)]))
                = length (live_entries (table s))
            \<and> snd (size_tbl (s1\<lparr>table := (table s1)[i := Some (e\<lparr>val := v\<rparr>)]\<rparr>))
                = snd (size_tbl s)
            \<and> one_slot_for ((table s1)[i := Some (e\<lparr>val := v\<rparr>)]) k))"
proof -
  note r = run_calls_new[OF n run]
  have "\<exists>s1 i e. resize kt s = Returns s1 \<and> (\<not> table_size s < item_count s * 2 \<longrightarrow> s1 = s)
            \<and> i < length (table s1) \<and> table s1 ! i = Some e \<and> in_use e \<and> key e = k
            \<and> insert_tbl (Suc fuel) kt s k v
                = Returns (s1\<lparr>table := (table s1)[i := Some (e\<lparr>val := v\<rparr>)]\<rparr>, True)
            \<and> length (live_entries ((table s1)[i := Some (e\<lparr>val := v\<rparr>)]))
                = length (live_entries (table s))
            \<and> snd (size_tbl (s1\<lparr>table := (table s1)[i := Some (e\<lparr>val := v\<rparr>)]\<rparr>))
                = snd (size_tbl s)
            \<and> one_slot_for ((table s1)[i := Some (e\<lparr>val := v\<rparr>)]) k"
    if h: "holds (table s) j k"
  proof -
    have ck: "check_key kt k" using reached_accepted[OF n run g h] .
    from insert_unfold[OF r(1) ck, of "Suc fuel" v] obtain s1 r' where
      s1: "resize kt s = Returns s1"
      and post: "probe_post kt (table s1) k (std_hash kt k mod table_size s1) r'"
      and ins: "insert_tbl (Suc fuel) kt s k v = (case r' of
             Match index \<Rightarrow> Returns (s1\<lparr>table := (table s1)[index :=
                  map_option (\<lambda>e. e\<lparr>val := v\<rparr>) (table s1 ! index)]\<rparr>, True)
           | Vacant index \<Rightarrow> Returns (s1\<lparr>table := (table s1)[index :=
                  Some \<lparr>key = k, val = v, in_use = True\<rparr>],
                  item_count := item_count s1 + 1\<rparr>, True)
           | Wrapped \<Rightarrow> OutOfFuel)" by auto
    from resize_ok[OF r(1)] s1 have inv1: "invariants kt s1"
      and ms: "mset (live_entries (table s1)) = mset (live_entries (table s))"
      and cnt: "item_count s1 = item_count s"
      and same: "\<not> table_size s < item_count s * 2 \<longrightarrow> s1 = s" by (auto split: if_splits)
    have c1: "chains_ok kt (table s1)" and len1: "length (table s1) = table_size s1"
      and n1: "0 < table_size s1"
      using inv1 by (simp_all add: invariants_def)
    have "k \<in> key ` set (live_entries (table s))" using h holds_iff[of "table s" k] by blast
    then have "k \<in> key ` set (live_entries (table s1))" using mset_eq_setD[OF ms] by simp
    then obtain j' where j': "holds (table s1) j' k" using holds_iff[of "table s1" k] by blast
    obtain i where m: "r' = Match i"
    proof (cases r')
      case (Vacant i)
      with post len1 obtain d where "d < length (table s1)"
        "table s1 ! ((std_hash kt k mod length (table s1) + d) mod length (table s1)) = None"
        "passed kt (table s1) k (std_hash kt k mod length (table s1)) d"
        by (auto simp: probe_post_def)
      from no_holder_vacant[OF c1 g this] j' show ?thesis by blast
    next
      case Wrapped
      with post len1 have "passed kt (table s1) k (std_hash kt k mod length (table s1))
          (length (table s1))"
        by (simp add: probe_post_def)
      from no_holder_wrapped[OF _ g this] n1 len1 j' show ?thesis by auto
    qed (use that in blast)
    with post have "matches kt (table s1) i k" by (auto simp: probe_post_def)
    then have "holds (table s1) i k" by (simp add: matches_plain[OF g])
    then obtain e where e: "i < length (table s1)" "table s1 ! i = Some e" "in_use e"
      and ke: "key e = k"
      by (auto simp: holds_def split: option.splits)
    note o = overwrite_slot[OF c1 e, of v]
    have lf: "live_for (table s1) k = live_for (table s) k"
      using same_live_entries[OF ms r(2)[OF g]] .
    have u1: "one_slot_for (table s1) (key e)"
      using r(2)[OF g] lf ke by (simp add: one_slot_for_def)
    have "live_for ((table s1)[i := Some (e\<lparr>val := v\<rparr>)]) (key e) = [e\<lparr>val := v\<rparr>]"
      using live_for_change(2)[OF e, of "e\<lparr>val := v\<rparr>"] u1 e(3) by simp
    then have u2: "one_slot_for ((table s1)[i := Some (e\<lparr>val := v\<rparr>)]) k"
      using ke by (simp add: one_slot_for_def)
    have "length (live_entries (table s1)) = length (live_entries (table s))"
      using ms by (rule mset_eq_length)
    with o(2) have l: "length (live_entries ((table s1)[i := Some (e\<lparr>val := v\<rparr>)]))
                = length (live_entries (table s))" by simp
    have "insert_tbl (Suc fuel) kt s k v
                = Returns (s1\<lparr>table := (table s1)[i := Some (e\<lparr>val := v\<rparr>)]\<rparr>, True)"
      using ins m e(2) by simp
    with s1 same e ke l u2 cnt show ?thesis
      by (intro exI[of _ s1] exI[of _ i] exI[of _ e]) (simp add: size_tbl_def)
  qed
  with r(2)[OF g] show ?thesis by blast
qed

theorem reinsert_overwrites_witness:
  "(0::nat) < 2
   \<and> run_calls 1 int_keys (CustomHashTable_new 2) history = Returns after_history
   \<and> plain_key int_keys 1 \<and> holds (table after_history) 1 1
   \<and> one_slot_for (table after_history) 1
   \<and> insert_tbl (Suc 0) int_keys after_history 1 ''eins''
       = Returns (after_history\<lparr>table := (table after_history)
                    [1 := Some \<lparr>key = 1, val = ''eins'', in_use = True\<rparr>]\<rparr>, True)
   \<and> snd (size_tbl (after_history\<lparr>table := (table after_history)
                    [1 := Some \<lparr>key = 1, val = ''eins'', in_use = True\<rparr>]\<rparr>))
       = snd (size_tbl after_history)"
proof -
  have n: "(0::nat) < 2" by simp
  note g = int_keys_plain[of 1]
  have h: "holds (table after_history) 1 1" by code_simp
  have i: "insert_tbl (Suc 0) int_keys after_history 1 ''eins''
       = Returns (after_history\<lparr>table := (table after_history)
                    [1 := Some \<lparr>key = 1, val = ''eins'', in_use = True\<rparr>]\<rparr>, True)"
    by code_simp
  note t = reinsert_overwrites[OF n after_history_reached g,
      where j = 1 and fuel = 0 and v = "''eins''"]
  note u = t[THEN conjunct1]
  from t[THEN conjunct2, THEN mp, OF h] obtain s1 j e where
    ins: "insert_tbl (Suc 0) int_keys after_history 1 ''eins''
                = Returns (s1\<lparr>table := (table s1)[j := Some (e\<lparr>val := ''eins''\<rparr>)]\<rparr>, True)"
    and sz: "snd (size_tbl (s1\<lparr>table := (table s1)[j := Some (e\<lparr>val := ''eins''\<rparr>)]\<rparr>))
                = snd (size_tbl after_history)"
    by (elim exE conjE)
  from ins i have eq: "s1\<lparr>table := (table s1)[j := Some (e\<lparr>val := ''eins''\<rparr>)]\<rparr>
      = after_history\<lparr>table := (table after_history)
                    [1 := Some \<lparr>key = 1, val = ''eins'', in_use = True\<rparr>]\<rparr>"
    by (simp only: outcome.inject prod.inject)
  note x = sz[unfolded eq]
  show ?thesis by (intro conjI n after_history_reached g h u i x)
qed

text \<open>
  C5 as stated fails for a key that \<^verbatim>\<open>operator==\<close> does not equate with itself: with
  \<^verbatim>\<open>Key = double\<close>, after \<^verbatim>\<open>insert(NaN, "a")\<close> on an empty table of four slots a live
  slot holds NaN, and \<^verbatim>\<open>insert(NaN, "b")\<close> returns true, leaves the first slot as it
  was and makes a second slot live: two live slots hold the key and \<^verbatim>\<open>size()\<close> goes
  from 1 to 2.
\<close>

theorem nan_inserted_twice_counterexample:
  "run_calls 1 double_keys (CustomHashTable_new 4) [Insert NaN ''a'']
       = Returns \<lparr>table = [Some \<lparr>key = NaN, val = ''a'', in_use = True\<rparr>, None, None, None],
           table_size = 4, item_count = 1\<rparr>
   \<and> holds (table \<lparr>table = [Some \<lparr>key = NaN, val = ''a'', in_use = True\<rparr>, None, None, None],
           table_size = 4, item_count = 1\<rparr>) 0 NaN
   \<and> insert_tbl 1 double_keys
          \<lparr>table = [Some \<lparr>key = NaN, val = ''a'', in_use = True\<rparr>, None, None, None],
           table_size = 4, item_count = 1\<rparr> NaN ''b''
       = Returns (\<lparr>table = [Some \<lparr>key = NaN, val = ''a'', in_use = True\<rparr>,
                     Some \<lparr>key = NaN, val = ''b'', in_use = True\<rparr>, None, None],
           table_size = 4, item_count = 2\<rparr>, True)
   \<and> snd (size_tbl \<lparr>table = [Some \<lparr>key = NaN, val = ''a'', in_use = True\<rparr>, None, None, None],
           table_size = 4, item_count = 1\<rparr>) = 1
   \<and> snd (size_tbl \<lparr>table = [Some \<lparr>key = NaN, val = ''a'', in_use = True\<rparr>,
                     Some \<lparr>key = NaN, val = ''b'', in_use = True\<rparr>, None, None],
           table_size = 4, item_count = 2\<rparr>) = 2
   \<and> \<not> one_slot_for (table \<lparr>table = [Some \<lparr>key = NaN, val = ''a'', in_use = True\<rparr>,
                     Some \<lparr>key = NaN, val = ''b'', in_use = True\<rparr>, None, None],
           table_size = 4, item_count = 2\<rparr>) NaN"
  by code_simp

section \<open>Rejected keys\<close>

text \<open>
  C6. The claim is that for every pointer-typed key equal to the null pointer,
  \<^verbatim>\<open>insert\<close> returns false and changes nothing. The code diverges: \<^verbatim>\<open>check_key\<close>
  tests for the null pointer only when \<^verbatim>\<open>Key\<close> is \<^verbatim>\<open>int*\<close> or \<^verbatim>\<open>char*\<close>. With
  \<^verbatim>\<open>Key = double*\<close> the null pointer is inserted into an empty table of four slots:
  \<^verbatim>\<open>insert\<close> returns true, the table has one item, and \<^verbatim>\<open>find\<close> of the null
  pointer returns the value.
\<close>

theorem null_key_stored_for_double_ptr:
  "is_nullptr double_ptr_keys Nullptr
   \<and> insert_tbl (Suc 0) double_ptr_keys (CustomHashTable_new 4) Nullptr ''one''
       = Returns (\<lparr>table = [Some \<lparr>key = Nullptr, val = ''one'', in_use = True\<rparr>, None, None, None],
                   table_size = 4, item_count = 1\<rparr>, True)
   \<and> find_tbl double_ptr_keys
         \<lparr>table = [Some \<lparr>key = Nullptr, val = ''one'', in_use = True\<rparr>, None, None, None],
                   table_size = 4, item_count = 1\<rparr> Nullptr
       = Returns (\<lparr>table = [Some \<lparr>key = Nullptr, val = ''one'', in_use = True\<rparr>, None, None, None],
                   table_size = 4, item_count = 1\<rparr>, Some ''one'')"
  by code_simp

section \<open>Tombstones\<close>



section \<open>Invariants\<close>

text \<open>
  C8. The invariants (\<^verbatim>\<open>item_count \<le> table_size\<close>, \<^verbatim>\<open>item_count\<close> is the number
  of live slots, every live slot is reachable from the hash of its key modulo the capacity
  by steps of \<open>+1\<close>, wrapping, over no empty slot) are kept by every \<^verbatim>\<open>insert\<close>
  that returns, by \<^verbatim>\<open>find\<close>, by \<^verbatim>\<open>remove\<close> and by \<^verbatim>\<open>resize\<close>, and the last three
  return.
\<close>

theorem invariants_preserved:
  assumes inv: "invariants kt s"
  shows "(\<forall>s' b. insert_tbl fuel kt s k v = Returns (s', b) \<longrightarrow> invariants kt s')
     \<and> (\<exists>r. find_tbl kt s k = Returns (s, r))
     \<and> (\<exists>s' b. remove kt s k = Returns (s', b) \<and> invariants kt s')
     \<and> (\<exists>s'. resize kt s = Returns s' \<and> invariants kt s')
     \<and> item_count s \<le> table_size s \<and> item_count s = length (live_entries (table s))
     \<and> chains_ok kt (table s)"
proof -
  have "invariants kt s'" if "insert_tbl fuel kt s k v = Returns (s', b)" for s' b
    using insert_inv(1)[OF inv that] .
  moreover have "\<exists>s' b. remove kt s k = Returns (s', b) \<and> invariants kt s'"
    using remove_inv[OF inv, of k] by blast
  moreover have "\<exists>s'. resize kt s = Returns s' \<and> invariants kt s'"
    using resize_ok[OF inv] by blast
  moreover have "item_count s \<le> table_size s \<and> item_count s = length (live_entries (table s))
     \<and> chains_ok kt (table s)" using inv by (simp add: invariants_def)
  ultimately show ?thesis using find_returns[OF inv, of k] by blast
qed

theorem invariants_preserved_witness:
  "invariants int_keys after_history
   \<and> insert_tbl 1 int_keys after_history 10 ''ten''
       = Returns (after_history\<lparr>table := (table after_history)
                    [4 := Some \<lparr>key = 10, val = ''ten'', in_use = True\<rparr>],
                    item_count := 3\<rparr>, True)
   \<and> invariants int_keys (after_history\<lparr>table := (table after_history)
                    [4 := Some \<lparr>key = 10, val = ''ten'', in_use = True\<rparr>],
                    item_count := 3\<rparr>)"
proof -
  have i: "insert_tbl 1 int_keys after_history 10 ''ten''
       = Returns (after_history\<lparr>table := (table after_history)
                    [4 := Some \<lparr>key = 10, val = ''ten'', in_use = True\<rparr>],
                    item_count := 3\<rparr>, True)" by code_simp
  note x = invariants_preserved[OF after_history_ok, of 1 10 "''ten''", THEN conjunct1,
      rule_format, OF i]
  show ?thesis by (intro conjI after_history_ok i x)
qed

section \<open>Bounds\<close>

text \<open>
  C9. From an empty table of positive capacity no sequence of calls runs into a fault:
  no remainder by zero and no access outside the vector, whose length is the capacity in
  every table reached. The constructor does not check the capacity: on a table
  constructed with capacity zero, \<^verbatim>\<open>insert\<close>, \<^verbatim>\<open>find\<close> and \<^verbatim>\<open>remove\<close> of an
  accepted key take a remainder by zero.
\<close>

theorem accesses_in_bounds:
  assumes n: "0 < n"
  shows "run_calls fuel kt (CustomHashTable_new n) cs \<noteq> Fault x
     \<and> (\<forall>s. run_calls fuel kt (CustomHashTable_new n) cs = Returns s
           \<longrightarrow> length (table s) = table_size s \<and> 0 < table_size s)
     \<and> (check_key kt k \<longrightarrow>
           insert_tbl (Suc fuel) kt (CustomHashTable_new 0) k v = Fault DivByZero
         \<and> find_tbl kt (CustomHashTable_new 0 :: ('k, 'v) CustomHashTable) k = Fault DivByZero
         \<and> remove kt (CustomHashTable_new 0 :: ('k, 'v) CustomHashTable) k = Fault DivByZero)"
proof -
  have "run_calls fuel kt (CustomHashTable_new n) cs \<noteq> Fault x"
    using run_calls_no_fault[OF new_ok(1)[OF n]] .
  moreover have "length (table s) = table_size s \<and> 0 < table_size s"
    if "run_calls fuel kt (CustomHashTable_new n) cs = Returns s" for s
    using run_calls_new(1)[OF n that] by (simp add: invariants_def)
  moreover have "insert_tbl (Suc fuel) kt (CustomHashTable_new 0) k v = Fault DivByZero
         \<and> find_tbl kt (CustomHashTable_new 0 :: ('k, 'v) CustomHashTable) k = Fault DivByZero
         \<and> remove kt (CustomHashTable_new 0 :: ('k, 'v) CustomHashTable) k = Fault DivByZero"
    if "check_key kt k"
    using that by (simp add: CustomHashTable_new_def resize_def hash_def find_tbl_def remove_def)
  ultimately show ?thesis by blast
qed

theorem accesses_in_bounds_witness:
  "(0::nat) < 2
   \<and> run_calls 1 int_keys (CustomHashTable_new 2) history \<noteq> Fault OutOfBounds
   \<and> check_key int_keys 1
   \<and> insert_tbl (Suc 1) int_keys (CustomHashTable_new 0) 1 ''one'' = Fault DivByZero"
proof -
  have n: "(0::nat) < 2" by simp
  have c: "check_key int_keys 1" by code_simp
  note t = accesses_in_bounds[OF n, where fuel = 1 and kt = int_keys and cs = history
      and x = OutOfBounds and k = 1 and v = "''one''"]
  note a = t[THEN conjunct1]
  note b = t[THEN conjunct2, THEN conjunct2, THEN mp, OF c, THEN conjunct1]
  show ?thesis by (intro conjI n a c b)
qed

section \<open>Read-only members\<close>

text \<open>
  C10. \<^verbatim>\<open>find\<close> and \<^verbatim>\<open>size\<close> leave the table as it was: whenever \<^verbatim>\<open>find\<close>
  returns, the table it leaves is the table it was called on (capacity, every slot's
  key, value and flag, and the count), and so is the table \<^verbatim>\<open>size\<close> leaves; a second
  call on the table left returns the same result.
\<close>

theorem find_size_read_only:
  assumes "find_tbl kt s k = Returns (s', r)"
  shows "s' = s \<and> find_tbl kt s' k = Returns (s', r)
       \<and> fst (size_tbl s) = s \<and> size_tbl (fst (size_tbl s)) = size_tbl s
       \<and> snd (size_tbl s') = snd (size_tbl s)"
proof -
  have "s' = s"
    using assms
    by (auto simp: find_tbl_def split: if_splits outcome.splits probe_result.splits)
  with assms show ?thesis by (simp add: size_tbl_def)
qed

theorem find_size_read_only_witness:
  "find_tbl int_keys \<lparr>table = [None, Some \<lparr>key = 1, val = ''one'', in_use = True\<rparr>],
       table_size = 2, item_count = 1\<rparr> 1
     = Returns (\<lparr>table = [None, Some \<lparr>key = 1, val = ''one'', in_use = True\<rparr>],
       table_size = 2, item_count = 1\<rparr>, Some ''one'')
   \<and> snd (size_tbl \<lparr>table = [None, Some \<lparr>key = 1::nat, val = ''one'', in_use = True\<rparr>],
       table_size = 2, item_count = 1\<rparr>) = 1"
proof -
  have h: "find_tbl int_keys \<lparr>table = [None, Some \<lparr>key = 1, val = ''one'', in_use = True\<rparr>],
       table_size = 2, item_count = 1\<rparr> 1
     = Returns (\<lparr>table = [None, Some \<lparr>key = 1, val = ''one'', in_use = True\<rparr>],
       table_size = 2, item_count = 1\<rparr>, Some ''one'')"
    by code_simp
  from find_size_read_only [OF h] h show ?thesis by (simp add: size_tbl_def)
qed

end
